theory Spec2Isabelle
  imports Main
begin

section \<open>Strings and regular expressions\<close>

text \<open>
  A string is a list of code units; the model covers text whose code units are below
  256. The character classes are those of the JavaScript regular expressions of
  \<^verbatim>\<open>bot.js\<close>: \<^verbatim>\<open>\s\<close> (white space and line terminators),
  \<^verbatim>\<open>\d\<close>, \<^verbatim>\<open>\w\<close> and the class \<^verbatim>\<open>[.,;!?]\<close>.
\<close>

definition isSpace :: "char \<Rightarrow> bool" where
  "isSpace c = (c \<in> set [CHR 0x09, CHR 0x0A, CHR 0x0B, CHR 0x0C, CHR 0x0D, CHR '' '', CHR 0xA0])"

definition isDigit :: "char \<Rightarrow> bool" where
  "isDigit c = (c \<in> set ''0123456789'')"

definition isWord :: "char \<Rightarrow> bool" where
  "isWord c = (c \<in> set ''abcdefghijklmnopqrstuvwxyzABCDEFGHIJKLMNOPQRSTUVWXYZ0123456789_'')"

definition isPunct :: "char \<Rightarrow> bool" where
  "isPunct c = (c \<in> set ''.,;!?'')"

text \<open>
  Under the flag \<^verbatim>\<open>i\<close> two code units match when their canonical forms (upper case)
  agree. Every pattern character of \<^verbatim>\<open>bot.js\<close> is ASCII, so only the ASCII letters
  matter.
\<close>

definition canonicalize :: "char \<Rightarrow> char" where
  "canonicalize c =
     (case map_of (zip ''abcdefghijklmnopqrstuvwxyz'' ''ABCDEFGHIJKLMNOPQRSTUVWXYZ'') c of
        Some u \<Rightarrow> u
      | None \<Rightarrow> c)"

text \<open>
  A pattern is a backtracking matcher in continuation-passing style: it consumes a
  prefix of the input and hands the rest to its continuation; when the continuation
  fails, the pattern tries its next alternative (a shorter repetition, the skipped
  option, the second branch), in the order of the JavaScript semantics. Sequencing is
  function composition.
\<close>

type_synonym 'a cont = "string \<Rightarrow> 'a option"

type_synonym 'a pattern = "'a cont \<Rightarrow> 'a cont"

definition re_lit :: "string \<Rightarrow> 'a pattern" where
  "re_lit p k s = (if take (length p) s = p then k (drop (length p) s) else None)"

definition re_lit_ci :: "string \<Rightarrow> 'a pattern" where
  "re_lit_ci p k s =
     (if map canonicalize (take (length p) s) = map canonicalize p
      then k (drop (length p) s) else None)"

definition re_opt :: "'a pattern \<Rightarrow> 'a pattern" where
  "re_opt r k s = (case r k s of Some x \<Rightarrow> Some x | None \<Rightarrow> k s)"

definition re_alt :: "'a pattern \<Rightarrow> 'a pattern \<Rightarrow> 'a pattern" where
  "re_alt r1 r2 k s = (case r1 k s of Some x \<Rightarrow> Some x | None \<Rightarrow> r2 k s)"

fun re_plus :: "(char \<Rightarrow> bool) \<Rightarrow> 'a pattern" where
  "re_plus cls k [] = None"
| "re_plus cls k (c # cs) =
     (if cls c then (case re_plus cls k cs of Some x \<Rightarrow> Some x | None \<Rightarrow> k cs) else None)"

definition re_eol :: "'a pattern" where
  "re_eol k s = (if s = [] then k s else None)"

text \<open>A match at the start of \<open>s\<close>: the input left after the matched prefix.\<close>

definition match_here :: "string pattern \<Rightarrow> string \<Rightarrow> string option" where
  "match_here re s = re Some s"

text \<open>
  \<^verbatim>\<open>text.match(re)\<close> with the flag \<^verbatim>\<open>g\<close>: every match, left to right, the search
  resuming where the last match ended (one code unit further after an empty match).
  \<open>skip\<close> counts the code units still covered by the last match. JavaScript returns
  \<^verbatim>\<open>null\<close> for no match; the callers only iterate, so the empty list stands for it.
\<close>

fun match_all :: "string pattern \<Rightarrow> string \<Rightarrow> nat \<Rightarrow> string list" where
  "match_all re [] skip =
     (if skip = 0 then (case match_here re [] of Some r \<Rightarrow> [[]] | None \<Rightarrow> []) else [])"
| "match_all re (c # cs) skip =
     (if 0 < skip then match_all re cs (skip - 1)
      else (case match_here re (c # cs) of
              Some rest \<Rightarrow>
                (let n = length (c # cs) - length rest
                 in take n (c # cs) # match_all re cs (n - 1))
            | None \<Rightarrow> match_all re cs 0))"

text \<open>\<^verbatim>\<open>s.match(re)\<close> without \<^verbatim>\<open>g\<close>: the leftmost match, \<open>None\<close> for \<^verbatim>\<open>null\<close>.\<close>

fun search_first :: "string pattern \<Rightarrow> string \<Rightarrow> string option" where
  "search_first re [] = (case match_here re [] of Some r \<Rightarrow> Some [] | None \<Rightarrow> None)"
| "search_first re (c # cs) =
     (case match_here re (c # cs) of
        Some rest \<Rightarrow> Some (take (length (c # cs) - length rest) (c # cs))
      | None \<Rightarrow> search_first re cs)"

text \<open>\<^verbatim>\<open>s.replace(re, '')\<close> without \<^verbatim>\<open>g\<close>: the leftmost match is cut out.\<close>

fun replace_first :: "string pattern \<Rightarrow> string \<Rightarrow> string" where
  "replace_first re [] = []"
| "replace_first re (c # cs) =
     (case match_here re (c # cs) of
        Some rest \<Rightarrow> rest
      | None \<Rightarrow> c # replace_first re cs)"

text \<open>\<^verbatim>\<open>s.includes(p)\<close>: \<open>p\<close> occurs in \<open>s\<close> as a substring.\<close>

fun str_includes :: "string \<Rightarrow> string \<Rightarrow> bool" where
  "str_includes [] p = (p = [])"
| "str_includes (c # cs) p = (take (length p) (c # cs) = p \<or> str_includes cs p)"

section \<open>Link Extractor: \<^verbatim>\<open>extractTwitterLinks\<close>\<close>

text \<open>\<^verbatim>\<open>/https?:\/\/(www\.)?(twitter\.com|x\.com)\/[^\s]+/gi\<close>\<close>

definition allUrlPattern :: "'a pattern" where
  "allUrlPattern =
     re_lit_ci ''http'' \<circ> re_opt (re_lit_ci ''s'') \<circ> re_lit_ci ''://'' \<circ>
     re_opt (re_lit_ci ''www.'') \<circ>
     re_alt (re_lit_ci ''twitter.com'') (re_lit_ci ''x.com'') \<circ>
     re_lit_ci ''/'' \<circ> re_plus (\<lambda>c. \<not> isSpace c)"

text \<open>\<^verbatim>\<open>/(https?:\/\/(www\.)?(twitter\.com|x\.com)\/\w+\/status\/\d+)/\<close>; its group 1 is
  the whole match.\<close>

definition statusPattern :: "'a pattern" where
  "statusPattern =
     re_lit ''http'' \<circ> re_opt (re_lit ''s'') \<circ> re_lit ''://'' \<circ>
     re_opt (re_lit ''www.'') \<circ>
     re_alt (re_lit ''twitter.com'') (re_lit ''x.com'') \<circ>
     re_lit ''/'' \<circ> re_plus isWord \<circ> re_lit ''/status/'' \<circ> re_plus isDigit"

text \<open>\<^verbatim>\<open>/https?:\/\/t\.co\/\w+/gi\<close>\<close>

definition shortPattern :: "'a pattern" where
  "shortPattern =
     re_lit_ci ''http'' \<circ> re_opt (re_lit_ci ''s'') \<circ> re_lit_ci ''://t.co/'' \<circ> re_plus isWord"

text \<open>\<^verbatim>\<open>/[.,;!?]+$/\<close>\<close>

definition trailingPunct :: "'a pattern" where
  "trailingPunct = re_plus isPunct \<circ> re_eol"

text \<open>\<^verbatim>\<open>links.add(x)\<close> on a JavaScript \<^verbatim>\<open>Set\<close>, which keeps insertion order; the list
  is what \<^verbatim>\<open>Array.from(links)\<close> returns.\<close>

definition set_add :: "string list \<Rightarrow> string \<Rightarrow> string list" where
  "set_add links x = (if x \<in> set links then links else links @ [x])"

text \<open>The body of the first \<^verbatim>\<open>forEach\<close> (lines 93 to 105).\<close>

definition addTwitterLink :: "string \<Rightarrow> string list \<Rightarrow> string list" where
  "addTwitterLink link links =
     (let cleanUrl = replace_first trailingPunct link
      in if str_includes cleanUrl ''/status/''
         then (case search_first statusPattern cleanUrl of
                 Some statusMatch \<Rightarrow> set_add links statusMatch
               | None \<Rightarrow> links)
         else set_add links cleanUrl)"

text \<open>The body of the second \<^verbatim>\<open>forEach\<close> (lines 112 to 115).\<close>

definition addShortLink :: "string \<Rightarrow> string list \<Rightarrow> string list" where
  "addShortLink link links = set_add links (replace_first trailingPunct link)"

definition extractTwitterLinks :: "string \<Rightarrow> string list" where
  "extractTwitterLinks text =
     (let links = fold addTwitterLink (match_all allUrlPattern text 0) [];
          links = fold addShortLink (match_all shortPattern text 0) links
      in links)"

section \<open>The language of a pattern\<close>

text \<open>Concatenation of two languages.\<close>

definition lang_seq :: "string set \<Rightarrow> string set \<Rightarrow> string set" where
  "lang_seq A B = {a @ b | a b. a \<in> A \<and> b \<in> B}"

text \<open>The strings that match the literal \<open>p\<close> under the flag \<^verbatim>\<open>i\<close>.\<close>

definition lang_ci :: "string \<Rightarrow> string set" where
  "lang_ci p = {m. map canonicalize m = map canonicalize p}"

text \<open>The non-empty strings over a character class.\<close>

definition lang_plus :: "(char \<Rightarrow> bool) \<Rightarrow> string set" where
  "lang_plus cls = {m. m \<noteq> [] \<and> list_all cls m}"

text \<open>
  A pattern implements a language when every successful match consumes a string of the
  language and hands the rest of the input to the continuation, and when the pattern
  succeeds on every input that starts with a string of the language after which the
  continuation succeeds.
\<close>

definition implements :: "'a pattern \<Rightarrow> string set \<Rightarrow> bool" where
  "implements R A =
     ((\<forall>k s r. R k s = Some r \<longrightarrow> (\<exists>m t. s = m @ t \<and> m \<in> A \<and> k t = Some r)) \<and>
      (\<forall>k m t. m \<in> A \<longrightarrow> k t \<noteq> None \<longrightarrow> R k (m @ t) \<noteq> None))"

text \<open>The strings that the three patterns of \<^verbatim>\<open>extractTwitterLinks\<close> match.\<close>

definition allUrlLang :: "string set" where
  "allUrlLang =
     lang_seq (lang_seq (lang_seq (lang_seq (lang_seq (lang_seq
       (lang_ci ''http'') (insert [] (lang_ci ''s''))) (lang_ci ''://''))
       (insert [] (lang_ci ''www.''))) (lang_ci ''twitter.com'' \<union> lang_ci ''x.com''))
       (lang_ci ''/'')) (lang_plus (\<lambda>c. \<not> isSpace c))"

definition statusLang :: "string set" where
  "statusLang =
     lang_seq (lang_seq (lang_seq (lang_seq (lang_seq (lang_seq (lang_seq (lang_seq
       {''http''} (insert [] {''s''})) {''://''})
       (insert [] {''www.''})) ({''twitter.com''} \<union> {''x.com''}))
       {''/''}) (lang_plus isWord)) {''/status/''}) (lang_plus isDigit)"

definition shortLang :: "string set" where
  "shortLang =
     lang_seq (lang_seq (lang_seq
       (lang_ci ''http'') (insert [] (lang_ci ''s''))) (lang_ci ''://t.co/'')) (lang_plus isWord)"

section \<open>Configuration and environment\<close>

text \<open>
  The constants \<^verbatim>\<open>bot.js\<close> reads from \<^verbatim>\<open>process.env\<close> at start-up. A variable of
  the environment is a string or undefined (\<open>None\<close>). \<open>BATCH_SIZE\<close> is the value
  after \<^verbatim>\<open>parseInt(...) || 100\<close>.
\<close>

record config =
  TEST_MODE_env :: bool
  MONGODB_URI :: "string option"
  GUILD_ID :: "string option"
  CHANNEL_ID_1 :: "string option"
  CHANNEL_ID_2 :: "string option"
  SCRAPE_FROM_DATE :: "string option"
  ENABLE_HISTORICAL_SCRAPING :: bool
  BATCH_SIZE :: nat

text \<open>JavaScript truthiness of a string that may be undefined.\<close>

definition truthy :: "string option \<Rightarrow> bool" where
  "truthy v = (case v of None \<Rightarrow> False | Some s \<Rightarrow> s \<noteq> [])"

text \<open>\<^verbatim>\<open>process.env.TEST_MODE === 'true' || !MONGODB_URI\<close>\<close>

definition TEST_MODE :: "config \<Rightarrow> bool" where
  "TEST_MODE cfg = (TEST_MODE_env cfg \<or> \<not> truthy (MONGODB_URI cfg))"

text \<open>\<^verbatim>\<open>[CHANNEL_ID_1, CHANNEL_ID_2].filter(Boolean)\<close>\<close>

definition allowedChannels :: "config \<Rightarrow> string list" where
  "allowedChannels cfg =
     concat (map (\<lambda>v. case v of None \<Rightarrow> [] | Some s \<Rightarrow> if s = [] then [] else [s])
                 [CHANNEL_ID_1 cfg, CHANNEL_ID_2 cfg])"

datatype error =
    ConfigError
  | ConnectionError
  | DuplicateKey
  | NetworkError
  | ApiError nat

text \<open>
  A message as the chat platform delivers it. Its identifier is a snowflake, modelled
  by its numeric value: the platform orders messages by it. Times are milliseconds
  since the epoch.
\<close>

record author =
  a_id :: string
  a_username :: string
  a_displayName :: "string option"
  a_bot :: bool

record channelRef =
  c_id :: string
  c_name :: string

record guild =
  g_id :: string
  g_name :: string

record message =
  m_id :: nat
  m_content :: string
  m_createdAt :: int
  m_author :: author
  m_channel :: channelRef
  m_guild :: "guild option"

text \<open>
  A text channel of the platform: its messages, newest first, and the page fetches that
  fail (by cursor). \<^verbatim>\<open>channel.messages.fetch({limit, before})\<close> answers with the at
  most \<open>limit\<close> newest messages whose identifier is below \<open>before\<close> (all messages
  when \<open>before\<close> is \<^verbatim>\<open>null\<close>), newest first, or throws.
\<close>

record history =
  h_messages :: "message list"
  h_failure :: "nat option \<Rightarrow> error option"

record channel =
  ch_name :: string
  ch_messages :: "history option"

definition older :: "nat option \<Rightarrow> message list \<Rightarrow> message list" where
  "older before ms = (case before of None \<Rightarrow> ms | Some b \<Rightarrow> filter (\<lambda>m. m_id m < b) ms)"

definition messages_fetch :: "history \<Rightarrow> nat \<Rightarrow> nat option \<Rightarrow> error + message list" where
  "messages_fetch h limit before =
     (case h_failure h before of
        Some e \<Rightarrow> Inl e
      | None \<Rightarrow> Inr (take limit (older before (h_messages h))))"

text \<open>
  What the program asks of the outside world: the clock (\<open>clock env n\<close> is the value
  of the \<open>n\<close>-th \<^verbatim>\<open>new Date()\<close> of the run), the HTTP client (\<^verbatim>\<open>axios.head\<close>: it
  throws, or answers with a response URL that may be undefined), the date parser
  (\<^verbatim>\<open>new Date(string).getTime()\<close>, \<open>None\<close> for \<^verbatim>\<open>NaN\<close>) and the platform's channels
  (\<^verbatim>\<open>client.channels.fetch\<close>).
\<close>

record env =
  clock :: "nat \<Rightarrow> int"
  httpHead :: "string \<Rightarrow> error + string option"
  parseDate :: "string \<Rightarrow> int option"
  channels_fetch :: "string \<Rightarrow> error + channel option"

section \<open>Link Record and storage\<close>

record linkData =
  url :: string
  originalUrl :: string
  messageId :: nat
  channelId :: string
  channelName :: string
  guildId :: "string option"
  guildName :: "string option"
  authorId :: string
  authorUsername :: string
  authorDisplayName :: string
  messageContent :: string
  messageTimestamp :: int
  foundAt :: int

text \<open>A stored record: the link data, and \<open>createdAt\<close> when the record has the field.\<close>

record document =
  link :: linkData
  createdAt :: "int option"

text \<open>
  The MongoDB collection: its documents in insertion order and its indexes, each a key
  with the flag \<^verbatim>\<open>unique\<close>.
\<close>

datatype indexKey = K_url | K_createdAt | K_messageTimestamp | K_messageId

datatype bson = B_string string | B_id nat | B_date int | B_null

record mongo =
  docs :: "document list"
  indexes :: "(indexKey \<times> bool) list"

fun indexValue :: "indexKey \<Rightarrow> document \<Rightarrow> bson" where
  "indexValue K_url d = B_string (url (link d))"
| "indexValue K_messageId d = B_id (messageId (link d))"
| "indexValue K_messageTimestamp d = B_date (messageTimestamp (link d))"
| "indexValue K_createdAt d = (case createdAt d of None \<Rightarrow> B_null | Some t \<Rightarrow> B_date t)"

text \<open>\<^verbatim>\<open>collection.createIndex(key, {unique})\<close>: building a unique index fails when two
  documents already share the key.\<close>

definition createIndex :: "indexKey \<Rightarrow> bool \<Rightarrow> mongo \<Rightarrow> error + mongo" where
  "createIndex k unique m =
     (if unique \<and> \<not> distinct (map (indexValue k) (docs m)) then Inl DuplicateKey
      else Inr (m\<lparr>indexes := indexes m @ [(k, unique)]\<rparr>))"

text \<open>A sequence of \<^verbatim>\<open>createIndex\<close> calls; the first failure is thrown.\<close>

fun createIndexes :: "(indexKey \<times> bool) list \<Rightarrow> mongo \<Rightarrow> error + mongo" where
  "createIndexes [] m = Inr m"
| "createIndexes ((k, unique) # ks) m =
     (case createIndex k unique m of Inl e \<Rightarrow> Inl e | Inr m' \<Rightarrow> createIndexes ks m')"

text \<open>\<^verbatim>\<open>findIndex\<close>: the first position whose element satisfies \<open>P\<close>; \<open>None\<close> for -1.\<close>

fun findIndex :: "('a \<Rightarrow> bool) \<Rightarrow> 'a list \<Rightarrow> nat option" where
  "findIndex P [] = None"
| "findIndex P (x # xs) =
     (if P x then Some 0 else (case findIndex P xs of None \<Rightarrow> None | Some i \<Rightarrow> Some (Suc i)))"

text \<open>Document \<open>d\<close>, to be stored at position \<open>i\<close>, repeats a key of a unique index
  held by a document at another position.\<close>

definition violates :: "mongo \<Rightarrow> nat \<Rightarrow> document \<Rightarrow> bool" where
  "violates m i d =
     list_ex (\<lambda>(k, unique). unique \<and>
                list_ex (\<lambda>j. j \<noteq> i \<and> indexValue k (docs m ! j) = indexValue k d)
                        [0..<length (docs m)])
             (indexes m)"

record updateResult =
  upsertedCount :: nat
  modifiedCount :: nat

text \<open>
  \<^verbatim>\<open>collection.updateOne({messageId, url}, {$set: linkData, $setOnInsert: {createdAt}},
  {upsert: true})\<close>: the first document matching the filter gets the fields of \<open>linkData\<close>
  and keeps its \<open>createdAt\<close>; when none matches, a new document with the fields of
  \<open>linkData\<close> and \<open>createdAt\<close> is inserted. A write that would repeat a key of a unique
  index throws and changes nothing.
\<close>

definition updateOne ::
  "mongo \<Rightarrow> nat \<times> string \<Rightarrow> linkData \<Rightarrow> int \<Rightarrow> error + mongo \<times> updateResult" where
  "updateOne m flt ld now =
     (case findIndex (\<lambda>d. messageId (link d) = fst flt \<and> url (link d) = snd flt) (docs m) of
        Some i \<Rightarrow>
          (let d = (docs m ! i)\<lparr>link := ld\<rparr>
           in if violates m i d then Inl DuplicateKey
              else Inr (m\<lparr>docs := (docs m)[i := d]\<rparr>,
                        \<lparr>upsertedCount = 0,
                         modifiedCount = (if d = docs m ! i then 0 else 1)\<rparr>))
      | None \<Rightarrow>
          (let d = \<lparr>link = ld, createdAt = Some now\<rparr>
           in if violates m (length (docs m)) d then Inl DuplicateKey
              else Inr (m\<lparr>docs := docs m @ [d]\<rparr>,
                        \<lparr>upsertedCount = 1, modifiedCount = 0\<rparr>)))"

section \<open>The bot\<close>

text \<open>
  The fields of \<^verbatim>\<open>TwitterLinkBot\<close> that the pipeline reads or writes, and the number
  of clock readings taken so far. \<open>collection\<close> is \<open>None\<close> for \<^verbatim>\<open>null\<close>.
\<close>

record bot =
  collection :: "mongo option"
  historicalScrapingComplete :: bool
  scrapingInProgress :: bool
  testModeLinks :: "document list"
  ticks :: nat

definition constructor :: bot where
  "constructor =
     \<lparr>collection = None, historicalScrapingComplete = False, scrapingInProgress = False,
      testModeLinks = [], ticks = 0\<rparr>"

text \<open>\<^verbatim>\<open>new Date()\<close>\<close>

definition newDate :: "env \<Rightarrow> bot \<Rightarrow> int \<times> bot" where
  "newDate e st = (clock e (ticks st), st\<lparr>ticks := Suc (ticks st)\<rparr>)"

definition parseScrapingDate :: "env \<Rightarrow> string option \<Rightarrow> int option" where
  "parseScrapingDate e dateString =
     (case dateString of
        None \<Rightarrow> None
      | Some s \<Rightarrow> if s = [] then None else parseDate e s)"

text \<open>The indexes \<^verbatim>\<open>connectToMongoDB\<close> creates (lines 73 to 76).\<close>

definition bot_indexes :: "(indexKey \<times> bool) list" where
  "bot_indexes =
     [(K_url, True), (K_createdAt, False), (K_messageTimestamp, False), (K_messageId, True)]"

text \<open>
  \<^verbatim>\<open>connectToMongoDB\<close>, given the collection as the server holds it (or the error of
  the connection). \<open>Inl\<close> is the exception that makes \<^verbatim>\<open>start\<close> exit.
\<close>

definition connectToMongoDB :: "config \<Rightarrow> error + mongo \<Rightarrow> bot \<Rightarrow> error + bot" where
  "connectToMongoDB cfg server st =
     (if TEST_MODE cfg then Inr st
      else if \<not> truthy (MONGODB_URI cfg) then Inl ConfigError
      else (case server of
              Inl e \<Rightarrow> Inl e
            | Inr m0 \<Rightarrow>
                (case createIndexes bot_indexes m0 of
                   Inl e \<Rightarrow> Inl e
                 | Inr m1 \<Rightarrow> Inr (st\<lparr>collection := Some m1\<rparr>))))"

section \<open>Link Resolver: \<^verbatim>\<open>expandShortUrl\<close>\<close>

text \<open>The result, and the requests sent to the network on the way.\<close>

definition expandShortUrl :: "env \<Rightarrow> string \<Rightarrow> string \<times> string list" where
  "expandShortUrl e u =
     (if str_includes u ''t.co''
      then (case httpHead e u of
              Inl err \<Rightarrow> (u, [u])
            | Inr responseUrl \<Rightarrow>
                ((case responseUrl of
                    None \<Rightarrow> u
                  | Some r \<Rightarrow> if r = [] then u else r), [u]))
      else (u, []))"

section \<open>Storage Gateway: \<^verbatim>\<open>saveLinkToDatabase\<close>\<close>

text \<open>
  In test mode the object \<open>ld\<close> itself is pushed; it has no field \<open>createdAt\<close>.
  Otherwise a failed write (also the \<^verbatim>\<open>TypeError\<close> of a \<^verbatim>\<open>null\<close> collection) is
  caught and logged. The log lines are left out.
\<close>

definition saveLinkToDatabase :: "config \<Rightarrow> env \<Rightarrow> linkData \<Rightarrow> bot \<Rightarrow> bot" where
  "saveLinkToDatabase cfg e ld st =
     (if TEST_MODE cfg then
        (case findIndex (\<lambda>l. messageId (link l) = messageId ld \<and> url (link l) = url ld)
                        (testModeLinks st) of
           None \<Rightarrow> st\<lparr>testModeLinks := testModeLinks st @ [\<lparr>link = ld, createdAt = None\<rparr>]\<rparr>
         | Some existingIndex \<Rightarrow> st)
      else
        (case collection st of
           None \<Rightarrow> st
         | Some m \<Rightarrow>
             (let (now, st1) = newDate e st
              in case updateOne m (messageId ld, url ld) ld now of
                   Inl err \<Rightarrow> st1
                 | Inr (m', res) \<Rightarrow> st1\<lparr>collection := Some m'\<rparr>)))"

text \<open>What a reader of the store enumerates: \<^verbatim>\<open>this.testModeLinks\<close> in test mode,
  the documents of the collection otherwise.\<close>

definition storedDocuments :: "config \<Rightarrow> bot \<Rightarrow> document list" where
  "storedDocuments cfg st =
     (if TEST_MODE cfg then testModeLinks st
      else (case collection st of None \<Rightarrow> [] | Some m \<Rightarrow> docs m))"

text \<open>A sequence of records to save in which two records that share a messageId or a
  url are the same record in every field.\<close>

definition noKeyReuse :: "linkData list \<Rightarrow> bool" where
  "noKeyReuse lds =
     (\<forall>a \<in> set lds. \<forall>b \<in> set lds. messageId a = messageId b \<or> url a = url b \<longrightarrow> a = b)"

section \<open>Record Builder and pipeline: \<^verbatim>\<open>processMessage\<close>\<close>

text \<open>The body of the loop over the extracted links (lines 199 to 223).\<close>

definition processLink :: "config \<Rightarrow> env \<Rightarrow> message \<Rightarrow> string \<Rightarrow> bot \<Rightarrow> bot" where
  "processLink cfg e msg lnk st =
     (let expandedUrl = fst (expandShortUrl e lnk);
          (now, st1) = newDate e st;
          ld = \<lparr>url = expandedUrl,
                originalUrl = lnk,
                messageId = m_id msg,
                channelId = c_id (m_channel msg),
                channelName = c_name (m_channel msg),
                guildId = (case m_guild msg of
                             None \<Rightarrow> None
                           | Some g \<Rightarrow> if g_id g = [] then None else Some (g_id g)),
                guildName = (case m_guild msg of
                               None \<Rightarrow> None
                             | Some g \<Rightarrow> if g_name g = [] then None else Some (g_name g)),
                authorId = a_id (m_author msg),
                authorUsername = a_username (m_author msg),
                authorDisplayName =
                  (case a_displayName (m_author msg) of
                     None \<Rightarrow> a_username (m_author msg)
                   | Some d \<Rightarrow> if d = [] then a_username (m_author msg) else d),
                messageContent = m_content msg,
                messageTimestamp = m_createdAt msg,
                foundAt = now\<rparr>
      in saveLinkToDatabase cfg e ld st1)"

definition processMessage :: "config \<Rightarrow> env \<Rightarrow> message \<Rightarrow> bot \<Rightarrow> bot" where
  "processMessage cfg e msg st =
     (if a_bot (m_author msg) then st
      else if truthy (GUILD_ID cfg) \<and>
              (case m_guild msg of None \<Rightarrow> True | Some g \<Rightarrow> Some (g_id g) \<noteq> GUILD_ID cfg)
      then st
      else if allowedChannels cfg \<noteq> [] \<and> c_id (m_channel msg) \<notin> set (allowedChannels cfg)
      then st
      else (let twitterLinks = extractTwitterLinks (m_content msg)
            in if twitterLinks = [] then st
               else fold (processLink cfg e msg) twitterLinks st))"

section \<open>Historical Scraper: the loop over the pages of a channel\<close>

text \<open>
  The loop over one fetched page (lines 286 to 308), for any per-message action
  \<open>proc\<close> (in the program: \<open>processMessage\<close>). The loop state is the bot, the
  cursor \<^verbatim>\<open>lastMessageId\<close>, the counter \<^verbatim>\<open>messagesInDateRange\<close> and the flag
  \<^verbatim>\<open>hasMoreMessages\<close>. The counters that are only logged are left out.
\<close>

fun scanPage ::
  "(message \<Rightarrow> 's \<Rightarrow> 's) \<Rightarrow> int \<Rightarrow> message list \<Rightarrow> 's \<times> nat option \<times> nat \<times> bool
     \<Rightarrow> 's \<times> nat option \<times> nat \<times> bool" where
  "scanPage proc fromDate [] acc = acc"
| "scanPage proc fromDate (msg # rest) (st, lastMessageId, messagesInDateRange, hasMoreMessages) =
     (if m_createdAt msg < fromDate then (st, lastMessageId, messagesInDateRange, False)
      else scanPage proc fromDate rest
             (proc msg st, Some (m_id msg), Suc messagesInDateRange, hasMoreMessages))"

text \<open>The messages of a page that the loop reaches: those before the first one older
  than the cutoff.\<close>

definition inRange :: "int \<Rightarrow> message list \<Rightarrow> message list" where
  "inRange fromDate ms = takeWhile (\<lambda>msg. \<not> m_createdAt msg < fromDate) ms"

lemma scanPage_eq:
  "scanPage proc fromDate ms (st, c, n, b) =
     (fold proc (inRange fromDate ms) st,
      (if inRange fromDate ms = [] then c else Some (m_id (last (inRange fromDate ms)))),
      n + length (inRange fromDate ms),
      (if length (inRange fromDate ms) = length ms then b else False))"
proof (induction ms arbitrary: st c n)
  case Nil
  show ?case by (simp add: inRange_def)
next
  case (Cons msg rest)
  show ?case
  proof (cases "m_createdAt msg < fromDate")
    case True
    then show ?thesis by (simp add: inRange_def)
  next
    case False
    have le: "length (takeWhile (\<lambda>msg. \<not> m_createdAt msg < fromDate) rest) \<le> length rest"
      by (rule length_takeWhile_le)
    from False le show ?thesis
      by (simp add: Cons.IH) (auto simp: inRange_def)
  qed
qed

lemma older_shrinks:
  assumes "x \<in> set (older c ms)"
  shows "length (older (Some (m_id x)) ms) < length (older c ms)"
proof -
  have eq: "older (Some (m_id x)) ms = filter (\<lambda>m. m_id m < m_id x) (older c ms)"
    using assms by (cases c) (auto simp: older_def intro!: filter_cong)
  have "\<not> (\<lambda>m. m_id m < m_id x) x" by simp
  with assms have "length (filter (\<lambda>m. m_id m < m_id x) (older c ms)) < length (older c ms)"
    by (rule length_filter_less)
  with eq show ?thesis by simp
qed

lemma takeWhile_full: "length (takeWhile P xs) = length xs \<Longrightarrow> takeWhile P xs = xs"
  by (induction xs) (auto split: if_splits)

lemma scrapeLoop_measure:
  assumes fetch: "messages_fetch h limit c = Inr ms"
    and nonempty: "ms \<noteq> []"
    and scan: "scanPage proc fromDate ms (st, c, 0, True) = (st', c', n, b)"
    and go: "n \<noteq> 0" "b"
  shows "length (older c' (h_messages h)) < length (older c (h_messages h))"
proof -
  from fetch have page: "ms = take limit (older c (h_messages h))"
    by (auto simp: messages_fetch_def split: option.splits)
  from scan go have "length (inRange fromDate ms) = length ms"
    by (auto simp: scanPage_eq split: if_splits)
  then have "inRange fromDate ms = ms"
    unfolding inRange_def by (rule takeWhile_full)
  with scan nonempty have c': "c' = Some (m_id (last ms))"
    by (simp add: scanPage_eq)
  have "last ms \<in> set ms"
    using nonempty by simp
  then have "last ms \<in> set (older c (h_messages h))"
    by (subst (asm) page) (rule in_set_takeD)
  from older_shrinks[OF this] show ?thesis
    by (simp add: c')
qed

text \<open>
  The \<^verbatim>\<open>while (hasMoreMessages)\<close> loop over the pages of one channel (lines 268 to
  334): a failed fetch and an empty page end it, as do a message older than the cutoff
  and a page with no message in range. The delay between pages changes no state.
\<close>

function scrapeLoop ::
  "(message \<Rightarrow> 's \<Rightarrow> 's) \<Rightarrow> int \<Rightarrow> nat \<Rightarrow> history \<Rightarrow> nat option \<Rightarrow> 's \<Rightarrow> 's" where
  "scrapeLoop proc fromDate limit h lastMessageId st =
     (case messages_fetch h limit lastMessageId of
        Inl err \<Rightarrow> st
      | Inr messages \<Rightarrow>
          if messages = [] then st
          else (case scanPage proc fromDate messages (st, lastMessageId, 0, True) of
                  (st', lastMessageId', messagesInDateRange, hasMoreMessages) \<Rightarrow>
                    if (if messagesInDateRange = 0 then False else hasMoreMessages)
                    then scrapeLoop proc fromDate limit h lastMessageId' st'
                    else st'))"
  by pat_completeness auto

termination
proof (relation "measure (\<lambda>(proc, fromDate, limit, h, lastMessageId, st).
                   length (older lastMessageId (h_messages h)))", goal_cases)
  case 1
  show ?case by simp
next
  case (2 proc fromDate limit h c st ms x y xa ya xb yb)
  from 2 have scan: "scanPage proc fromDate ms (st, c, 0, True) = (x, xa, xb, yb)"
    by simp
  from 2 have go: "xb \<noteq> 0" "yb"
    by (auto split: if_splits)
  from scrapeLoop_measure[OF 2(1) 2(2) scan go] show ?case
    by simp
qed

declare scrapeLoop.simps [simp del]

section \<open>Live Monitor: the handler of \<^verbatim>\<open>messageCreate\<close>\<close>

text \<open>The condition of line 421: historical scraping is disabled, or it is complete.\<close>

definition liveMonitorActive :: "config \<Rightarrow> bot \<Rightarrow> bool" where
  "liveMonitorActive cfg st =
     (\<not> ENABLE_HISTORICAL_SCRAPING cfg \<or> historicalScrapingComplete st)"

text \<open>The handler (lines 419 to 429); the summary it prints in test mode is left out.\<close>

definition onMessageCreate :: "config \<Rightarrow> env \<Rightarrow> message \<Rightarrow> bot \<Rightarrow> bot" where
  "onMessageCreate cfg e msg st =
     (if liveMonitorActive cfg st then processMessage cfg e msg st else st)"

section \<open>The event loop while the scraper runs\<close>

text \<open>
  \<^verbatim>\<open>scrapeHistoricalMessages\<close> is an \<^verbatim>\<open>async\<close> function: where it awaits (the fetch
  of a channel, the fetch of a page, the processing of a message, the delay between two
  pages) the event loop runs the handler of every \<^verbatim>\<open>messageCreate\<close> event that has
  arrived. A run carries the bot, the events still to arrive, in one batch for each
  point at which the scraper yields to them, and the messages that the Live Monitor
  has passed to \<^verbatim>\<open>processMessage\<close> so far.
\<close>

record run =
  bot_state :: bot
  pending :: "message list list"
  handled :: "message list"

text \<open>The delivery of one event: the handler runs, and the message is recorded when the
  handler processes it.\<close>

definition deliver :: "config \<Rightarrow> env \<Rightarrow> message \<Rightarrow> run \<Rightarrow> run" where
  "deliver cfg e msg r =
     r\<lparr>bot_state := onMessageCreate cfg e msg (bot_state r),
       handled := (if liveMonitorActive cfg (bot_state r) then handled r @ [msg] else handled r)\<rparr>"

text \<open>An await of the scraper: the next batch of events is delivered, each handler
  running to its end.\<close>

definition await :: "config \<Rightarrow> env \<Rightarrow> run \<Rightarrow> run" where
  "await cfg e r =
     (case pending r of
        [] \<Rightarrow> r
      | batch # rest \<Rightarrow> fold (deliver cfg e) batch (r\<lparr>pending := rest\<rparr>))"

text \<open>A step of the scraper itself changes the bot only.\<close>

definition onBot :: "(bot \<Rightarrow> bot) \<Rightarrow> run \<Rightarrow> run" where
  "onBot f r = r\<lparr>bot_state := f (bot_state r)\<rparr>"

text \<open>What a part of the program does to the bot when no event arrives while it runs.\<close>

definition quiet :: "(run \<Rightarrow> run) \<Rightarrow> bot \<Rightarrow> bot" where
  "quiet f st = bot_state (f \<lparr>bot_state = st, pending = [], handled = []\<rparr>)"

section \<open>Historical Scraper: \<^verbatim>\<open>scrapeHistoricalMessages\<close>\<close>

text \<open>
  One turn of the loop over the allow-listed channels (lines 255 to 340). Events are
  delivered at the fetch of the channel (line 258), before a message is processed (the
  events that arrived while its page was fetched, line 276, or during the delay of line
  324), after it (the events that arrived while it was processed, line 301) and when the
  loop over the pages ends (the events that arrived during the last fetch).
\<close>

definition scrapeChannelRun :: "config \<Rightarrow> env \<Rightarrow> int \<Rightarrow> string \<Rightarrow> run \<Rightarrow> run" where
  "scrapeChannelRun cfg e fromDate cid r =
     (let r1 = await cfg e r
      in case channels_fetch e cid of
           Inl err \<Rightarrow> r1
         | Inr None \<Rightarrow> r1
         | Inr (Some ch) \<Rightarrow>
             (case ch_messages ch of
                None \<Rightarrow> r1
              | Some h \<Rightarrow>
                  await cfg e
                    (scrapeLoop
                       (\<lambda>msg r2. await cfg e (onBot (processMessage cfg e msg) (await cfg e r2)))
                       fromDate (BATCH_SIZE cfg) h None r1)))"

text \<open>The same turn when no event arrives.\<close>

definition scrapeChannel :: "config \<Rightarrow> env \<Rightarrow> int \<Rightarrow> string \<Rightarrow> bot \<Rightarrow> bot" where
  "scrapeChannel cfg e fromDate cid = quiet (scrapeChannelRun cfg e fromDate cid)"

text \<open>
  \<^verbatim>\<open>scrapeHistoricalMessages\<close> (lines 226 to 353). The two early returns leave
  \<open>historicalScrapingComplete\<close> as it is; the flag is set by the statement after the
  loop over the channels (line 344).
\<close>

definition scrapeHistoricalMessages :: "config \<Rightarrow> env \<Rightarrow> run \<Rightarrow> run" where
  "scrapeHistoricalMessages cfg e r =
     (if \<not> ENABLE_HISTORICAL_SCRAPING cfg then r
      else (case parseScrapingDate e (SCRAPE_FROM_DATE cfg) of
              None \<Rightarrow> r
            | Some fromDate \<Rightarrow>
                (let (today, st1) = newDate e (bot_state r);
                     r2 = r\<lparr>bot_state := st1\<lparr>scrapingInProgress := True\<rparr>\<rparr>
                 in if allowedChannels cfg = []
                    then onBot (\<lambda>st. st\<lparr>scrapingInProgress := False\<rparr>) r2
                    else (let r3 = fold (scrapeChannelRun cfg e fromDate) (allowedChannels cfg) r2
                          in onBot (\<lambda>st. st\<lparr>scrapingInProgress := False,
                                              historicalScrapingComplete := True\<rparr>) r3))))"

section \<open>The handler of \<^verbatim>\<open>ready\<close>\<close>

text \<open>The handler of \<^verbatim>\<open>ready\<close> (lines 382 to 417) when no event arrives while it
  runs; the summaries it prints are left out.\<close>

definition onReady :: "config \<Rightarrow> env \<Rightarrow> bot \<Rightarrow> bot" where
  "onReady cfg e st =
     (if ENABLE_HISTORICAL_SCRAPING cfg then quiet (scrapeHistoricalMessages cfg e) st else st)"

section \<open>Example inputs\<close>

text \<open>Test mode: \<^verbatim>\<open>TEST_MODE=true\<close>, nothing else set.\<close>

definition test_config :: config where
  "test_config =
     \<lparr>TEST_MODE_env = True, MONGODB_URI = None, GUILD_ID = None, CHANNEL_ID_1 = None,
      CHANNEL_ID_2 = None, SCRAPE_FROM_DATE = None, ENABLE_HISTORICAL_SCRAPING = False,
      BATCH_SIZE = 100\<rparr>"

text \<open>A database is configured; no historical scraping.\<close>

definition db_config :: config where
  "db_config =
     \<lparr>TEST_MODE_env = False, MONGODB_URI = Some ''mongodb://localhost/links'', GUILD_ID = None,
      CHANNEL_ID_1 = None, CHANNEL_ID_2 = None, SCRAPE_FROM_DATE = None,
      ENABLE_HISTORICAL_SCRAPING = False, BATCH_SIZE = 100\<rparr>"

text \<open>Historical scraping is enabled and no cutoff date is set.\<close>

definition nodate_config :: config where
  "nodate_config =
     \<lparr>TEST_MODE_env = True, MONGODB_URI = None, GUILD_ID = None, CHANNEL_ID_1 = Some ''c1'',
      CHANNEL_ID_2 = None, SCRAPE_FROM_DATE = None, ENABLE_HISTORICAL_SCRAPING = True,
      BATCH_SIZE = 100\<rparr>"

text \<open>A clock that advances by one millisecond per reading, a network that answers every
  request with the login page, a date parser that accepts nothing, no channel.\<close>

definition example_env :: env where
  "example_env =
     \<lparr>clock = (\<lambda>n. 1000 + int n),
      httpHead = (\<lambda>u. Inr (Some ''https://x.com/i/flow/login'')),
      parseDate = (\<lambda>s. None),
      channels_fetch = (\<lambda>c. Inr None)\<rparr>"

definition example_link :: linkData where
  "example_link =
     \<lparr>url = ''https://x.com/a'', originalUrl = ''https://x.com/a'', messageId = 7,
      channelId = ''c1'', channelName = ''general'', guildId = None, guildName = None,
      authorId = ''u1'', authorUsername = ''ann'', authorDisplayName = ''ann'',
      messageContent = ''https://x.com/a'', messageTimestamp = 500, foundAt = 900\<rparr>"

definition example_message :: "string \<Rightarrow> message" where
  "example_message txt =
     \<lparr>m_id = 7, m_content = txt, m_createdAt = 500,
      m_author = \<lparr>a_id = ''u1'', a_username = ''ann'', a_displayName = None, a_bot = False\<rparr>,
      m_channel = \<lparr>c_id = ''c1'', c_name = ''general''\<rparr>,
      m_guild = None\<rparr>"

text \<open>The bot after \<^verbatim>\<open>connectToMongoDB\<close> on an empty collection.\<close>

definition connected :: bot where
  "connected =
     constructor\<lparr>collection := Some \<lparr>docs = [], indexes = bot_indexes\<rparr>\<rparr>"

text \<open>A channel with four messages, newest first, and no failing fetch.\<close>

definition example_message_at :: "nat \<Rightarrow> int \<Rightarrow> message" where
  "example_message_at i t = (example_message ''https://x.com/a'')\<lparr>m_id := i, m_createdAt := t\<rparr>"

definition example_history :: history where
  "example_history =
     \<lparr>h_messages = [example_message_at 40 400, example_message_at 30 300,
                     example_message_at 20 200, example_message_at 10 100],
      h_failure = (\<lambda>c. None)\<rparr>"

text \<open>Historical scraping of channel \<^verbatim>\<open>c1\<close> from a cutoff that parses to 250, in test
  mode; the platform serves the channel with the four messages above.\<close>

definition scrape_config :: config where
  "scrape_config =
     \<lparr>TEST_MODE_env = True, MONGODB_URI = None, GUILD_ID = None, CHANNEL_ID_1 = Some ''c1'',
      CHANNEL_ID_2 = None, SCRAPE_FROM_DATE = Some ''2024-01-01'',
      ENABLE_HISTORICAL_SCRAPING = True, BATCH_SIZE = 100\<rparr>"

definition scrape_env :: env where
  "scrape_env =
     \<lparr>clock = (\<lambda>n. 1000 + int n),
      httpHead = (\<lambda>u. Inr None),
      parseDate = (\<lambda>s. Some 250),
      channels_fetch = (\<lambda>c. Inr (Some \<lparr>ch_name = ''general'', ch_messages = Some example_history\<rparr>))\<rparr>"

text \<open>A message that arrives while the bot runs, and a run in which such messages arrive
  at the first seven points at which the scraper yields.\<close>

definition live_message :: "nat \<Rightarrow> message" where
  "live_message i = (example_message ''https://x.com/b'')\<lparr>m_id := i\<rparr>"

definition example_run :: "bot \<Rightarrow> run" where
  "example_run st =
     \<lparr>bot_state = st,
      pending = [[live_message 51], [], [live_message 52, live_message 53], [live_message 54],
                 [], [live_message 55], [live_message 56]],
      handled = []\<rparr>"

section \<open>Storage: insert-only test mode\<close>

lemma findIndex_None: "findIndex P xs = None \<longleftrightarrow> (\<forall>x \<in> set xs. \<not> P x)"
  by (induction xs) (auto split: option.splits)

lemma findIndex_Some:
  "findIndex P xs = Some i \<Longrightarrow> i < length xs \<and> P (xs ! i)"
  by (induction xs arbitrary: i) (auto split: option.splits if_splits)

lemma save_test_existing:
  assumes "TEST_MODE cfg"
    and "\<exists>d \<in> set (testModeLinks st). messageId (link d) = messageId ld \<and> url (link d) = url ld"
  shows "saveLinkToDatabase cfg e ld st = st"
proof -
  from assms(2) have "findIndex (\<lambda>l. messageId (link l) = messageId ld \<and> url (link l) = url ld)
                        (testModeLinks st) \<noteq> None"
    by (simp add: findIndex_None)
  with assms(1) show ?thesis
    by (auto simp: saveLinkToDatabase_def split: option.splits)
qed

lemma save_test_fresh:
  assumes "TEST_MODE cfg"
    and "\<not> (\<exists>d \<in> set (testModeLinks st). messageId (link d) = messageId ld \<and> url (link d) = url ld)"
  shows "saveLinkToDatabase cfg e ld st =
           st\<lparr>testModeLinks := testModeLinks st @ [\<lparr>link = ld, createdAt = None\<rparr>]\<rparr>"
proof -
  from assms(2) have "findIndex (\<lambda>l. messageId (link l) = messageId ld \<and> url (link l) = url ld)
                        (testModeLinks st) = None"
    by (simp add: findIndex_None)
  with assms(1) show ?thesis
    by (simp add: saveLinkToDatabase_def)
qed

lemma save_test_no_createdAt:
  assumes "TEST_MODE cfg" and "\<forall>d \<in> set (testModeLinks st). createdAt d = None"
  shows "\<forall>d \<in> set (testModeLinks (saveLinkToDatabase cfg e ld st)). createdAt d = None"
  using assms by (auto simp: saveLinkToDatabase_def split: option.splits)

lemma fold_save_test_no_createdAt:
  assumes "TEST_MODE cfg" and "\<forall>d \<in> set (testModeLinks st). createdAt d = None"
  shows "\<forall>d \<in> set (testModeLinks (fold (saveLinkToDatabase cfg e) lds st)). createdAt d = None"
  using assms(2)
proof (induction lds arbitrary: st)
  case Nil
  then show ?case by simp
next
  case (Cons ld lds)
  from save_test_no_createdAt[OF assms(1) Cons.prems]
  have "\<forall>d \<in> set (testModeLinks (saveLinkToDatabase cfg e ld st)). createdAt d = None" .
  from Cons.IH[OF this] show ?case by simp
qed

section \<open>Storage: the collection with its unique indexes\<close>

lemma violates_iff:
  assumes "indexes m = bot_indexes"
  shows "violates m i d \<longleftrightarrow>
           (\<exists>j < length (docs m). j \<noteq> i \<and>
              (url (link (docs m ! j)) = url (link d) \<or>
               messageId (link (docs m ! j)) = messageId (link d)))"
  using assms by (auto simp: violates_def bot_indexes_def list_ex_iff)

lemma findIndex_append_last:
  assumes "\<forall>x \<in> set xs. \<not> P x" and "P y"
  shows "findIndex P (xs @ [y]) = Some (length xs)"
  using assms by (induction xs) auto

lemma updateOne_insert:
  assumes idx: "indexes m = bot_indexes"
    and fresh: "\<forall>d \<in> set (docs m). messageId (link d) \<noteq> messageId ld \<and> url (link d) \<noteq> url ld"
  shows "updateOne m (messageId ld, url ld) ld now =
           Inr (m\<lparr>docs := docs m @ [\<lparr>link = ld, createdAt = Some now\<rparr>]\<rparr>,
                \<lparr>upsertedCount = 1, modifiedCount = 0\<rparr>)"
proof -
  from fresh have none: "findIndex (\<lambda>d. messageId (link d) = messageId ld \<and> url (link d) = url ld)
                     (docs m) = None"
    by (simp add: findIndex_None)
  from fresh have ok: "\<not> violates m (length (docs m)) \<lparr>link = ld, createdAt = Some now\<rparr>"
    by (auto simp: violates_iff[OF idx])
  from none ok show ?thesis
    by (simp add: updateOne_def)
qed

lemma updateOne_update_last:
  assumes idx: "indexes m = bot_indexes"
    and last: "docs m = ds @ [d]"
    and key: "messageId (link d) = messageId ld" "url (link d) = url ld"
    and fresh: "\<forall>x \<in> set ds. messageId (link x) \<noteq> messageId ld \<and> url (link x) \<noteq> url ld"
  shows "\<exists>res. updateOne m (messageId ld, url ld) ld now =
           Inr (m\<lparr>docs := ds @ [d\<lparr>link := ld\<rparr>]\<rparr>, res)"
proof -
  have found: "findIndex (\<lambda>d. messageId (link d) = messageId ld \<and> url (link d) = url ld)
                 (docs m) = Some (length ds)"
    unfolding last using fresh key by (intro findIndex_append_last) auto
  have ok: "\<not> violates m (length ds) (d\<lparr>link := ld\<rparr>)"
    using fresh by (auto simp: violates_iff[OF idx] last nth_append)
  from found ok show ?thesis
    by (simp add: updateOne_def last Let_def)
qed

lemma updateOne_reject:
  assumes idx: "indexes m = bot_indexes"
    and nokey: "\<forall>d \<in> set (docs m). \<not> (messageId (link d) = messageId ld \<and> url (link d) = url ld)"
    and clash: "\<exists>d \<in> set (docs m). messageId (link d) = messageId ld \<or> url (link d) = url ld"
  shows "updateOne m (messageId ld, url ld) ld now = Inl DuplicateKey"
proof -
  from nokey have none: "findIndex (\<lambda>d. messageId (link d) = messageId ld \<and> url (link d) = url ld)
                     (docs m) = None"
    by (simp add: findIndex_None)
  from clash obtain j where "j < length (docs m)"
      "messageId (link (docs m ! j)) = messageId ld \<or> url (link (docs m ! j)) = url ld"
    by (auto simp: in_set_conv_nth)
  then have "violates m (length (docs m)) \<lparr>link = ld, createdAt = Some now\<rparr>"
    by (auto simp: violates_iff[OF idx])
  with none show ?thesis
    by (simp add: updateOne_def)
qed

lemma save_db:
  assumes "\<not> TEST_MODE cfg" and "collection st = Some m"
  shows "saveLinkToDatabase cfg e ld st =
           (case updateOne m (messageId ld, url ld) ld (clock e (ticks st)) of
              Inl err \<Rightarrow> st\<lparr>ticks := Suc (ticks st)\<rparr>
            | Inr (m', res) \<Rightarrow> st\<lparr>ticks := Suc (ticks st), collection := Some m'\<rparr>)"
  using assms by (simp add: saveLinkToDatabase_def newDate_def split: sum.splits prod.splits)

lemma save_db_insert:
  assumes "\<not> TEST_MODE cfg" and "collection st = Some m" and "indexes m = bot_indexes"
    and "\<forall>d \<in> set (docs m). messageId (link d) \<noteq> messageId ld \<and> url (link d) \<noteq> url ld"
  shows "saveLinkToDatabase cfg e ld st =
           st\<lparr>ticks := Suc (ticks st),
              collection := Some (m\<lparr>docs := docs m @
                 [\<lparr>link = ld, createdAt = Some (clock e (ticks st))\<rparr>]\<rparr>)\<rparr>"
  by (simp add: save_db[OF assms(1,2)] updateOne_insert[OF assms(3,4)])

lemma save_db_update_last:
  assumes "\<not> TEST_MODE cfg" and "collection st = Some m" and "indexes m = bot_indexes"
    and "docs m = ds @ [d]"
    and "messageId (link d) = messageId ld" "url (link d) = url ld"
    and "\<forall>x \<in> set ds. messageId (link x) \<noteq> messageId ld \<and> url (link x) \<noteq> url ld"
  shows "saveLinkToDatabase cfg e ld st =
           st\<lparr>ticks := Suc (ticks st),
              collection := Some (m\<lparr>docs := ds @ [d\<lparr>link := ld\<rparr>]\<rparr>)\<rparr>"
proof -
  from updateOne_update_last[OF assms(3-7)] obtain res where
    "updateOne m (messageId ld, url ld) ld (clock e (ticks st)) =
       Inr (m\<lparr>docs := ds @ [d\<lparr>link := ld\<rparr>]\<rparr>, res)"
    by blast
  then show ?thesis
    by (simp add: save_db[OF assms(1,2)])
qed

lemma save_db_reject:
  assumes "\<not> TEST_MODE cfg" and "collection st = Some m" and "indexes m = bot_indexes"
    and "\<forall>d \<in> set (docs m). \<not> (messageId (link d) = messageId ld \<and> url (link d) = url ld)"
    and "\<exists>d \<in> set (docs m). messageId (link d) = messageId ld \<or> url (link d) = url ld"
  shows "saveLinkToDatabase cfg e ld st = st\<lparr>ticks := Suc (ticks st)\<rparr>"
  by (simp add: save_db[OF assms(1,2)] updateOne_reject[OF assms(3-5)])

lemma save_twice_db:
  assumes db: "\<not> TEST_MODE cfg" and coll: "collection st = Some m" and idx: "indexes m = bot_indexes"
    and fresh: "\<forall>d \<in> set (docs m). messageId (link d) \<noteq> messageId ld \<and> url (link d) \<noteq> url ld"
    and key: "messageId ld' = messageId ld" "url ld' = url ld"
  shows "storedDocuments cfg (saveLinkToDatabase cfg e ld' (saveLinkToDatabase cfg e ld st)) =
           docs m @ [\<lparr>link = ld', createdAt = Some (clock e (ticks st))\<rparr>]"
proof -
  let ?d = "\<lparr>link = ld, createdAt = Some (clock e (ticks st))\<rparr>"
  let ?m1 = "m\<lparr>docs := docs m @ [?d]\<rparr>"
  let ?st1 = "st\<lparr>ticks := Suc (ticks st), collection := Some ?m1\<rparr>"
  have first: "saveLinkToDatabase cfg e ld st = ?st1"
    by (rule save_db_insert[OF db coll idx fresh])
  have c1: "collection ?st1 = Some ?m1" by simp
  have i1: "indexes ?m1 = bot_indexes" using idx by simp
  have d1: "docs ?m1 = docs m @ [?d]" by simp
  have k1: "messageId (link ?d) = messageId ld'" "url (link ?d) = url ld'"
    using key by simp_all
  have f1: "\<forall>x \<in> set (docs m). messageId (link x) \<noteq> messageId ld' \<and> url (link x) \<noteq> url ld'"
    using fresh key by simp
  from save_db_update_last[OF db c1 i1 d1 k1 f1, of e] db show ?thesis
    by (simp add: first storedDocuments_def)
qed

lemma save_twice_test:
  assumes t: "TEST_MODE cfg"
    and fresh: "\<forall>d \<in> set (testModeLinks st).
                  \<not> (messageId (link d) = messageId ld \<and> url (link d) = url ld)"
    and key: "messageId ld' = messageId ld" "url ld' = url ld"
  shows "storedDocuments cfg (saveLinkToDatabase cfg e ld' (saveLinkToDatabase cfg e ld st)) =
           testModeLinks st @ [\<lparr>link = ld, createdAt = None\<rparr>]"
proof -
  from fresh have first: "saveLinkToDatabase cfg e ld st =
           st\<lparr>testModeLinks := testModeLinks st @ [\<lparr>link = ld, createdAt = None\<rparr>]\<rparr>"
    by (intro save_test_fresh[OF t]) blast
  have "saveLinkToDatabase cfg e ld' (saveLinkToDatabase cfg e ld st) = saveLinkToDatabase cfg e ld st"
    by (rule save_test_existing[OF t]) (simp add: first key)
  with t show ?thesis
    by (simp add: first storedDocuments_def)
qed

lemma save_createdAt_kept:
  "take (length (storedDocuments cfg st))
      (map createdAt (storedDocuments cfg (saveLinkToDatabase cfg e ld st))) =
   map createdAt (storedDocuments cfg st)"
proof (cases "TEST_MODE cfg")
  case True
  then show ?thesis
    by (auto simp: saveLinkToDatabase_def storedDocuments_def split: option.splits)
next
  case False
  show ?thesis
  proof (cases "collection st")
    case None
    with False show ?thesis
      by (simp add: saveLinkToDatabase_def storedDocuments_def)
  next
    case (Some m)
    have upd: "take (length ds) (map createdAt (ds[i := (ds ! i)\<lparr>link := ld\<rparr>])) = map createdAt ds"
      for ds :: "document list" and i
      by (cases "i < length ds") (simp_all add: map_update list_eq_iff_nth_eq nth_list_update)
    from False Some show ?thesis
      by (auto simp: save_db storedDocuments_def updateOne_def Let_def upd
               split: option.splits sum.splits)
  qed
qed

lemma save_db_step:
  assumes db: "\<not> TEST_MODE cfg" and coll: "collection st = Some m" and idx: "indexes m = bot_indexes"
    and same: "\<forall>d \<in> set (docs m).
                 messageId (link d) = messageId ld \<or> url (link d) = url ld \<longrightarrow> link d = ld"
  shows "\<exists>m'. collection (saveLinkToDatabase cfg e ld st) = Some m' \<and> indexes m' = bot_indexes \<and>
              map link (docs m') =
                (if ld \<in> set (map link (docs m)) then map link (docs m) else map link (docs m) @ [ld])"
proof (cases "ld \<in> set (map link (docs m))")
  case True
  let ?P = "\<lambda>d. messageId (link d) = messageId ld \<and> url (link d) = url ld"
  from True have "findIndex ?P (docs m) \<noteq> None"
    by (auto simp: findIndex_None)
  then obtain i where i: "findIndex ?P (docs m) = Some i"
    by blast
  from findIndex_Some[OF i] have "i < length (docs m)" "?P (docs m ! i)"
    by simp_all
  with same have "link (docs m ! i) = ld"
    by (metis nth_mem)
  moreover have "d\<lparr>link := link d\<rparr> = d" for d :: document
    by simp
  ultimately have same_doc: "(docs m ! i)\<lparr>link := ld\<rparr> = docs m ! i"
    by metis
  from i same_doc have "updateOne m (messageId ld, url ld) ld (clock e (ticks st)) = Inl DuplicateKey \<or>
      (\<exists>res. updateOne m (messageId ld, url ld) ld (clock e (ticks st)) = Inr (m, res))"
    by (simp add: updateOne_def Let_def)
  with True coll idx show ?thesis
    by (auto simp: save_db[OF db coll])
next
  case False
  with same have fresh: "\<forall>d \<in> set (docs m). messageId (link d) \<noteq> messageId ld \<and> url (link d) \<noteq> url ld"
    by auto
  from False idx show ?thesis
    by (simp add: save_db_insert[OF db coll idx fresh])
qed

lemma connect_empty:
  assumes "\<not> TEST_MODE cfg"
  shows "connectToMongoDB cfg (Inr \<lparr>docs = [], indexes = []\<rparr>) constructor = Inr connected"
  using assms
  by (auto simp: connectToMongoDB_def TEST_MODE_def bot_indexes_def createIndex_def connected_def)

lemma save_test_step:
  assumes t: "TEST_MODE cfg"
    and same: "\<forall>d \<in> set (testModeLinks st).
                 messageId (link d) = messageId ld \<or> url (link d) = url ld \<longrightarrow> link d = ld"
  shows "map link (testModeLinks (saveLinkToDatabase cfg e ld st)) =
           (if ld \<in> set (map link (testModeLinks st)) then map link (testModeLinks st)
            else map link (testModeLinks st) @ [ld])"
proof (cases "ld \<in> set (map link (testModeLinks st))")
  case True
  then have "\<exists>d \<in> set (testModeLinks st). messageId (link d) = messageId ld \<and> url (link d) = url ld"
    by auto
  from save_test_existing[OF t this] True show ?thesis
    by simp
next
  case False
  with same have "\<not> (\<exists>d \<in> set (testModeLinks st).
                       messageId (link d) = messageId ld \<and> url (link d) = url ld)"
    by auto
  from save_test_fresh[OF t this] False show ?thesis
    by simp
qed

lemma noKeyReuseD:
  "noKeyReuse lds \<Longrightarrow> a \<in> set lds \<Longrightarrow> b \<in> set lds \<Longrightarrow>
     messageId a = messageId b \<or> url a = url b \<Longrightarrow> a = b"
  unfolding noKeyReuse_def by blast

lemma noKeyReuse_subset:
  "noKeyReuse lds \<Longrightarrow> set lds' \<subseteq> set lds \<Longrightarrow> noKeyReuse lds'"
  unfolding noKeyReuse_def by blast

lemma stores_agree_fold:
  assumes db: "\<not> TEST_MODE cfgP" and t: "TEST_MODE cfgT"
  shows "collection stP = Some m \<Longrightarrow> indexes m = bot_indexes \<Longrightarrow>
         map link (docs m) = map link (testModeLinks stT) \<Longrightarrow>
         noKeyReuse (map link (docs m) @ lds) \<Longrightarrow>
         map link (storedDocuments cfgP (fold (saveLinkToDatabase cfgP eP) lds stP)) =
         map link (storedDocuments cfgT (fold (saveLinkToDatabase cfgT eT) lds stT))"
proof (induction lds arbitrary: stP stT m)
  case Nil
  with db t show ?case
    by (simp add: storedDocuments_def)
next
  case (Cons ld lds)
  let ?acc = "map link (docs m)"
  note nk = Cons.prems(4)
  have sameP: "\<forall>d \<in> set (docs m).
                 messageId (link d) = messageId ld \<or> url (link d) = url ld \<longrightarrow> link d = ld"
  proof (intro ballI impI)
    fix d assume "d \<in> set (docs m)" and sh: "messageId (link d) = messageId ld \<or> url (link d) = url ld"
    then have "link d \<in> set (?acc @ ld # lds)" by simp
    moreover have "ld \<in> set (?acc @ ld # lds)" by simp
    ultimately show "link d = ld" using sh by (rule noKeyReuseD[OF nk])
  qed
  have sameT: "\<forall>d \<in> set (testModeLinks stT).
                 messageId (link d) = messageId ld \<or> url (link d) = url ld \<longrightarrow> link d = ld"
  proof (intro ballI impI)
    fix d assume "d \<in> set (testModeLinks stT)"
      and sh: "messageId (link d) = messageId ld \<or> url (link d) = url ld"
    then have "link d \<in> set (map link (testModeLinks stT))" by simp
    then have "link d \<in> set (?acc @ ld # lds)" by (simp add: Cons.prems(3))
    moreover have "ld \<in> set (?acc @ ld # lds)" by simp
    ultimately show "link d = ld" using sh by (rule noKeyReuseD[OF nk])
  qed
  from save_db_step[OF db Cons.prems(1,2) sameP, of eP] obtain m' where
    m': "collection (saveLinkToDatabase cfgP eP ld stP) = Some m'" "indexes m' = bot_indexes"
        "map link (docs m') = (if ld \<in> set ?acc then ?acc else ?acc @ [ld])"
    by blast
  have accT: "map link (testModeLinks (saveLinkToDatabase cfgT eT ld stT)) =
                (if ld \<in> set ?acc then ?acc else ?acc @ [ld])"
    using save_test_step[OF t sameT, of eT] by (simp add: Cons.prems(3))
  have "set (map link (docs m') @ lds) \<subseteq> set (?acc @ ld # lds)"
    unfolding m'(3) by auto
  with nk have inv: "noKeyReuse (map link (docs m') @ lds)"
    by (rule noKeyReuse_subset)
  have "map link (docs m') = map link (testModeLinks (saveLinkToDatabase cfgT eT ld stT))"
    unfolding m'(3) accT ..
  from Cons.IH[OF m'(1,2) this inv] show ?case
    by simp
qed

section \<open>Storage: the claims\<close>

lemma db_config_not_test: "\<not> TEST_MODE db_config"
  by (simp add: TEST_MODE_def db_config_def truthy_def)

lemma test_config_test: "TEST_MODE test_config"
  by (simp add: TEST_MODE_def test_config_def)

lemma extract_two_links: "extractTwitterLinks ''https://x.com/a https://x.com/b'' =
   [''https://x.com/a'', ''https://x.com/b'']"
  by code_simp

lemma no_shortener_in_example: "\<not> str_includes ''https://x.com/a'' ''t.co''" "\<not> str_includes ''https://x.com/b'' ''t.co''"
  by code_simp+

lemma two_links_one_document: "map (\<lambda>d. url (link d))
     (storedDocuments db_config
        (processMessage db_config example_env (example_message ''https://x.com/a https://x.com/b'')
           connected)) = [''https://x.com/a'']"
  by (simp add: processMessage_def processLink_def extract_two_links no_shortener_in_example expandShortUrl_def
        example_message_def db_config_def truthy_def allowedChannels_def newDate_def
        saveLinkToDatabase_def TEST_MODE_def connected_def constructor_def updateOne_def
        violates_def bot_indexes_def storedDocuments_def example_env_def Let_def)

text \<open>
  Claim C1 asks that the store itself enforce uniqueness on the pair (messageId, url)
  and on nothing narrower, so that the two records of a message with two links are both
  stored. The collection has a unique index on \<open>url\<close> alone and one on
  \<open>messageId\<close> alone: once a record of a message is stored, the record of a second
  link of the same message is rejected by the index on \<open>messageId\<close>, the error is
  caught, and the store holds the first record only. Test mode stores both.
\<close>

theorem C1_second_link_of_message_rejected:
  assumes "\<not> TEST_MODE cfg" and "collection st = Some m" and "indexes m = bot_indexes"
    and "\<forall>d \<in> set (docs m). messageId (link d) \<noteq> messageId ld \<and> url (link d) \<noteq> url ld"
    and "messageId ld' = messageId ld" and "url ld' \<noteq> url ld"
  shows "storedDocuments cfg (saveLinkToDatabase cfg e ld' (saveLinkToDatabase cfg e ld st)) =
           docs m @ [\<lparr>link = ld, createdAt = Some (clock e (ticks st))\<rparr>]"
proof -
  let ?d = "\<lparr>link = ld, createdAt = Some (clock e (ticks st))\<rparr>"
  let ?m1 = "m\<lparr>docs := docs m @ [?d]\<rparr>"
  let ?st1 = "st\<lparr>ticks := Suc (ticks st), collection := Some ?m1\<rparr>"
  have first: "saveLinkToDatabase cfg e ld st = ?st1"
    by (rule save_db_insert[OF assms(1-4)])
  have c1: "collection ?st1 = Some ?m1" by simp
  have i1: "indexes ?m1 = bot_indexes" using assms(3) by simp
  have nokey: "\<forall>d \<in> set (docs ?m1). \<not> (messageId (link d) = messageId ld' \<and> url (link d) = url ld')"
    using assms(4,5,6) by auto
  have clash: "\<exists>d \<in> set (docs ?m1). messageId (link d) = messageId ld' \<or> url (link d) = url ld'"
    using assms(5) by simp
  from save_db_reject[OF assms(1) c1 i1 nokey clash, of e] assms(1) show ?thesis
    by (simp add: first storedDocuments_def)
qed

theorem C1_second_link_of_message_rejected_witness:
  "extractTwitterLinks ''https://x.com/a https://x.com/b'' = [''https://x.com/a'', ''https://x.com/b''] \<and>
   map (\<lambda>d. url (link d))
     (storedDocuments db_config
        (saveLinkToDatabase db_config example_env (example_link\<lparr>url := ''https://x.com/b''\<rparr>)
           (saveLinkToDatabase db_config example_env example_link connected))) =
     [''https://x.com/a''] \<and>
   map (\<lambda>d. url (link d))
     (storedDocuments db_config
        (processMessage db_config example_env (example_message ''https://x.com/a https://x.com/b'')
           connected)) = [''https://x.com/a''] \<and>
   map (\<lambda>d. url (link d))
     (storedDocuments test_config
        (saveLinkToDatabase test_config example_env (example_link\<lparr>url := ''https://x.com/b''\<rparr>)
           (saveLinkToDatabase test_config example_env example_link constructor))) =
     [''https://x.com/a'', ''https://x.com/b'']"
proof -
  have c: "collection connected = Some \<lparr>docs = [], indexes = bot_indexes\<rparr>"
    by (simp add: connected_def constructor_def)
  have k: "messageId (example_link\<lparr>url := ''https://x.com/b''\<rparr>) = messageId example_link"
          "url (example_link\<lparr>url := ''https://x.com/b''\<rparr>) \<noteq> url example_link"
    by (simp_all add: example_link_def)
  have "storedDocuments db_config
        (saveLinkToDatabase db_config example_env (example_link\<lparr>url := ''https://x.com/b''\<rparr>)
           (saveLinkToDatabase db_config example_env example_link connected)) =
        [\<lparr>link = example_link, createdAt = Some (clock example_env (ticks connected))\<rparr>]"
    using C1_second_link_of_message_rejected[OF db_config_not_test c _ _ k, of example_env] by simp
  moreover have "url example_link = ''https://x.com/a''"
    by (simp add: example_link_def)
  moreover have "map (\<lambda>d. url (link d))
     (storedDocuments test_config
        (saveLinkToDatabase test_config example_env (example_link\<lparr>url := ''https://x.com/b''\<rparr>)
           (saveLinkToDatabase test_config example_env example_link constructor))) =
     [''https://x.com/a'', ''https://x.com/b'']"
    by (simp add: storedDocuments_def saveLinkToDatabase_def TEST_MODE_def test_config_def
        constructor_def example_link_def)
  ultimately show ?thesis
    using extract_two_links two_links_one_document by simp
qed

text \<open>
  Claim C2 as stated fails in test mode: there the second upsert of a key changes
  nothing, so the stored \<open>foundAt\<close> is the first call's (900, not 2000), and no
  \<open>createdAt\<close> is stored.
\<close>

theorem C2_degraded_second_upsert_counterexample:
  "map (\<lambda>d. (foundAt (link d), createdAt d))
     (storedDocuments test_config
        (saveLinkToDatabase test_config example_env (example_link\<lparr>foundAt := 2000\<rparr>)
           (saveLinkToDatabase test_config example_env example_link constructor))) =
   [(900, None)]"
  by (simp add: storedDocuments_def saveLinkToDatabase_def TEST_MODE_def test_config_def
        constructor_def example_link_def)

text \<open>
  Claim C2, amended. Let two records have the same messageId and url (the second call
  carrying a later \<open>foundAt\<close>). With a database, if neither the messageId nor the url
  is stored yet, saving the first and then the second leaves exactly one new document:
  it has the fields of the second record, so its \<open>foundAt\<close> is the second call's, and
  its \<open>createdAt\<close> is the clock reading taken at the first insert. In test mode, if
  the key is not stored yet, the one new record keeps the fields of the first call and
  has no \<open>createdAt\<close>. In both modes a save never changes the \<open>createdAt\<close> of a
  record stored before.
\<close>

theorem C2_upsert_twice:
  assumes "messageId ld' = messageId ld" and "url ld' = url ld"
  shows "(\<not> TEST_MODE cfg \<and> collection st = Some m \<and> indexes m = bot_indexes \<and>
          (\<forall>d \<in> set (docs m). messageId (link d) \<noteq> messageId ld \<and> url (link d) \<noteq> url ld) \<longrightarrow>
          storedDocuments cfg (saveLinkToDatabase cfg e ld' (saveLinkToDatabase cfg e ld st)) =
            docs m @ [\<lparr>link = ld', createdAt = Some (clock e (ticks st))\<rparr>]) \<and>
         (TEST_MODE cfg \<and>
          (\<forall>d \<in> set (testModeLinks st).
              \<not> (messageId (link d) = messageId ld \<and> url (link d) = url ld)) \<longrightarrow>
          storedDocuments cfg (saveLinkToDatabase cfg e ld' (saveLinkToDatabase cfg e ld st)) =
            testModeLinks st @ [\<lparr>link = ld, createdAt = None\<rparr>]) \<and>
         take (length (storedDocuments cfg st))
           (map createdAt (storedDocuments cfg (saveLinkToDatabase cfg e ld st))) =
         map createdAt (storedDocuments cfg st)"
  using save_twice_db[of cfg st m ld ld' e] save_twice_test[of cfg st ld ld' e] assms
    save_createdAt_kept[of cfg st e ld]
  by blast

theorem C2_upsert_twice_witness:
  "storedDocuments db_config
     (saveLinkToDatabase db_config example_env (example_link\<lparr>foundAt := 2000\<rparr>)
        (saveLinkToDatabase db_config example_env example_link connected)) =
     [\<lparr>link = example_link\<lparr>foundAt := 2000\<rparr>, createdAt = Some 1000\<rparr>] \<and>
   storedDocuments test_config
     (saveLinkToDatabase test_config example_env (example_link\<lparr>foundAt := 2000\<rparr>)
        (saveLinkToDatabase test_config example_env example_link constructor)) =
     [\<lparr>link = example_link, createdAt = None\<rparr>]"
proof -
  have k: "messageId (example_link\<lparr>foundAt := 2000\<rparr>) = messageId example_link"
          "url (example_link\<lparr>foundAt := 2000\<rparr>) = url example_link"
    by simp_all
  have c: "collection connected = Some \<lparr>docs = [], indexes = bot_indexes\<rparr>"
          "ticks connected = 0" "testModeLinks constructor = []"
    by (simp_all add: connected_def constructor_def)
  have e: "clock example_env 0 = 1000"
    by (simp add: example_env_def)
  from C2_upsert_twice[OF k, of db_config connected "\<lparr>docs = [], indexes = bot_indexes\<rparr>" example_env]
       C2_upsert_twice[OF k, of test_config constructor _ example_env]
       db_config_not_test test_config_test c e
  show ?thesis
    by simp
qed

text \<open>
  Claim C6 as stated fails: after the same key is saved twice, the second time with a
  later \<open>foundAt\<close> and a changed user name, the collection holds the fields of the
  second call and test mode those of the first; the stored user names, which the
  summary of the store lists, differ too.
\<close>

theorem C6_same_key_twice_counterexample:
  "map (\<lambda>d. (foundAt (link d), authorUsername (link d)))
     (storedDocuments db_config
        (fold (saveLinkToDatabase db_config example_env)
           [example_link, example_link\<lparr>foundAt := 2000, authorUsername := ''anna''\<rparr>] connected)) =
     [(2000, ''anna'')] \<and>
   map (\<lambda>d. (foundAt (link d), authorUsername (link d)))
     (storedDocuments test_config
        (fold (saveLinkToDatabase test_config example_env)
           [example_link, example_link\<lparr>foundAt := 2000, authorUsername := ''anna''\<rparr>] constructor)) =
     [(900, ''ann'')]"
  by (simp add: saveLinkToDatabase_def TEST_MODE_def connected_def constructor_def updateOne_def
        violates_def bot_indexes_def storedDocuments_def example_env_def Let_def newDate_def
        db_config_def test_config_def truthy_def example_link_def)

text \<open>
  Claim C6, amended. For every sequence of records to save in which two records that
  share a messageId or a url are the same in every field, the database (starting from
  the empty collection with the indexes of \<open>connectToMongoDB\<close>) and test mode
  (starting from the empty list) hold the same link records, in the same order, with
  the same values in every field of the link data; the documents of the database carry
  \<open>createdAt\<close> in addition.
\<close>

theorem C6_stores_agree_without_key_reuse:
  assumes "\<not> TEST_MODE cfgP" and "TEST_MODE cfgT" and "noKeyReuse lds"
  shows "map link (storedDocuments cfgP (fold (saveLinkToDatabase cfgP eP) lds connected)) =
         map link (storedDocuments cfgT (fold (saveLinkToDatabase cfgT eT) lds constructor))"
proof -
  have c: "collection connected = Some \<lparr>docs = [], indexes = bot_indexes\<rparr>"
    by (simp add: connected_def constructor_def)
  have "map link (docs \<lparr>docs = [], indexes = bot_indexes\<rparr>) = map link (testModeLinks constructor)"
    by (simp add: constructor_def)
  moreover have "noKeyReuse (map link (docs \<lparr>docs = [], indexes = bot_indexes\<rparr>) @ lds)"
    using assms(3) by simp
  ultimately show ?thesis
    using stores_agree_fold[OF assms(1,2) c] by simp
qed

theorem C6_stores_agree_without_key_reuse_witness:
  "noKeyReuse [example_link, example_link\<lparr>url := ''https://x.com/b'', messageId := 8\<rparr>, example_link] \<and>
   map link (storedDocuments db_config
      (fold (saveLinkToDatabase db_config example_env)
         [example_link, example_link\<lparr>url := ''https://x.com/b'', messageId := 8\<rparr>, example_link]
         connected)) =
   map link (storedDocuments test_config
      (fold (saveLinkToDatabase test_config example_env)
         [example_link, example_link\<lparr>url := ''https://x.com/b'', messageId := 8\<rparr>, example_link]
         constructor)) \<and>
   map link (storedDocuments test_config
      (fold (saveLinkToDatabase test_config example_env)
         [example_link, example_link\<lparr>url := ''https://x.com/b'', messageId := 8\<rparr>, example_link]
         constructor)) =
   [example_link, example_link\<lparr>url := ''https://x.com/b'', messageId := 8\<rparr>]"
proof -
  have nk: "noKeyReuse [example_link, example_link\<lparr>url := ''https://x.com/b'', messageId := 8\<rparr>, example_link]"
    by (simp add: noKeyReuse_def example_link_def)
  have "map link (storedDocuments test_config
      (fold (saveLinkToDatabase test_config example_env)
         [example_link, example_link\<lparr>url := ''https://x.com/b'', messageId := 8\<rparr>, example_link]
         constructor)) =
   [example_link, example_link\<lparr>url := ''https://x.com/b'', messageId := 8\<rparr>]"
    by (simp add: storedDocuments_def saveLinkToDatabase_def TEST_MODE_def test_config_def
        constructor_def example_link_def)
  with nk C6_stores_agree_without_key_reuse[OF db_config_not_test test_config_test nk, of example_env example_env]
  show ?thesis
    by simp
qed

text \<open>
  Claim C10. In test mode (the in-memory store) the upsert only inserts: when a stored
  record already has the messageId and the url of the record to save, the bot is left
  as it was, so no field of the stored record, \<open>foundAt\<close> included, is refreshed. And
  whatever sequence of records is saved, starting from the empty store of the
  constructor, no stored record has a \<open>createdAt\<close>.
\<close>

theorem C10_degraded_upsert_insert_only:
  assumes "TEST_MODE cfg"
  shows "((\<exists>d \<in> set (testModeLinks st).
             messageId (link d) = messageId ld \<and> url (link d) = url ld) \<longrightarrow>
           saveLinkToDatabase cfg e ld st = st) \<and>
         (\<forall>d \<in> set (testModeLinks (fold (saveLinkToDatabase cfg e) lds constructor)).
             createdAt d = None)"
proof
  show "(\<exists>d \<in> set (testModeLinks st).
             messageId (link d) = messageId ld \<and> url (link d) = url ld) \<longrightarrow>
           saveLinkToDatabase cfg e ld st = st"
    using save_test_existing[OF assms] by blast
  have "\<forall>d \<in> set (testModeLinks constructor). createdAt d = None"
    by (simp add: constructor_def)
  from fold_save_test_no_createdAt[OF assms this]
  show "\<forall>d \<in> set (testModeLinks (fold (saveLinkToDatabase cfg e) lds constructor)).
             createdAt d = None" .
qed

theorem C10_degraded_upsert_insert_only_witness:
  "TEST_MODE test_config \<and>
   saveLinkToDatabase test_config example_env (example_link\<lparr>foundAt := 2000\<rparr>)
     (saveLinkToDatabase test_config example_env example_link constructor) =
   saveLinkToDatabase test_config example_env example_link constructor \<and>
   map createdAt (testModeLinks
     (fold (saveLinkToDatabase test_config example_env)
        [example_link, example_link\<lparr>url := ''https://x.com/b''\<rparr>] constructor)) = [None, None]"
proof -
  have t: "TEST_MODE test_config"
    by (simp add: TEST_MODE_def test_config_def)
  let ?st = "saveLinkToDatabase test_config example_env example_link constructor"
  have stored: "testModeLinks ?st = [\<lparr>link = example_link, createdAt = None\<rparr>]"
    using t by (simp add: saveLinkToDatabase_def constructor_def)
  have len: "length (testModeLinks
     (fold (saveLinkToDatabase test_config example_env)
        [example_link, example_link\<lparr>url := ''https://x.com/b''\<rparr>] constructor)) = 2"
    using t by (simp add: saveLinkToDatabase_def constructor_def example_link_def)
  from C10_degraded_upsert_insert_only[OF t, of ?st "example_link\<lparr>foundAt := 2000\<rparr>" example_env
      "[example_link, example_link\<lparr>url := ''https://x.com/b''\<rparr>]"] stored len t
  show ?thesis
    by (auto simp: length_Suc_conv numeral_2_eq_2)
qed

section \<open>Gating of the Live Monitor\<close>

lemma save_complete [simp]:
  "historicalScrapingComplete (saveLinkToDatabase cfg e ld st) = historicalScrapingComplete st"
  by (simp add: saveLinkToDatabase_def newDate_def split: option.splits sum.splits prod.splits)

lemma processLink_complete [simp]:
  "historicalScrapingComplete (processLink cfg e msg lnk st) = historicalScrapingComplete st"
  by (simp add: processLink_def newDate_def Let_def)

lemma fold_keeps:
  assumes "\<And>x s. f (g x s) = f s"
  shows "f (fold g xs s) = f s"
  by (induction xs arbitrary: s) (simp_all add: assms)

lemma processMessage_complete [simp]:
  "historicalScrapingComplete (processMessage cfg e msg st) = historicalScrapingComplete st"
  by (simp add: processMessage_def Let_def fold_keeps)

lemma scrapeLoop_keeps:
  "(\<And>msg s. f (proc msg s) = f s) \<Longrightarrow> f (scrapeLoop proc fromDate limit h c st) = f st"
proof (induction proc fromDate limit h c st rule: scrapeLoop.induct)
  case (1 proc fromDate limit h c st)
  note keep = "1.prems"
  show ?case
  proof (cases "messages_fetch h limit c")
    case (Inl err)
    then show ?thesis by (subst scrapeLoop.simps) simp
  next
    case (Inr ms)
    show ?thesis
    proof (cases "ms = []")
      case True
      with Inr show ?thesis by (subst scrapeLoop.simps) simp
    next
      case False
      obtain st' c' n b where scan: "scanPage proc fromDate ms (st, c, 0, True) = (st', c', n, b)"
        by (metis prod_cases4)
      then have st': "st' = fold proc (inRange fromDate ms) st"
        by (simp add: scanPage_eq)
      have fst': "f st' = f st"
        unfolding st' by (rule fold_keeps) (rule keep)
      show ?thesis
      proof (cases "n \<noteq> 0 \<and> b")
        case True
        then have go: "(if n = 0 then False else b)" by simp
        from "1.IH"[OF Inr False scan[symmetric] refl refl go keep]
        have "f (scrapeLoop proc fromDate limit h c' st') = f st'" .
        with Inr False scan True fst' show ?thesis
          by (subst scrapeLoop.simps) simp
      next
        case stop: False
        with Inr False scan fst' show ?thesis
          by (subst scrapeLoop.simps) auto
      qed
    qed
  qed
qed

lemma fold_rel:
  assumes "\<And>x a b. R a b \<Longrightarrow> R (f x a) (g x b)" and "R a b"
  shows "R (fold f xs a) (fold g xs b)"
  using assms(2) by (induction xs arbitrary: a b) (simp_all add: assms(1))

text \<open>Two per-message actions that keep a relation between their states keep it through
  the loop over the pages: the loop fetches the same pages for both.\<close>

lemma scrapeLoop_rel:
  "(\<And>msg a b. R a b \<Longrightarrow> R (p1 msg a) (p2 msg b)) \<Longrightarrow> R a b \<Longrightarrow>
   R (scrapeLoop p1 fromDate limit h c a) (scrapeLoop p2 fromDate limit h c b)"
proof (induction p2 fromDate limit h c b arbitrary: a rule: scrapeLoop.induct)
  case (1 p2 fromDate limit h c b)
  note step = "1.prems"(1)
  note rel = "1.prems"(2)
  show ?case
  proof (cases "messages_fetch h limit c")
    case (Inl err)
    with rel show ?thesis
      by (subst scrapeLoop.simps, subst (2) scrapeLoop.simps) simp
  next
    case (Inr ms)
    show ?thesis
    proof (cases "ms = []")
      case True
      with Inr rel show ?thesis
        by (subst scrapeLoop.simps, subst (2) scrapeLoop.simps) simp
    next
      case False
      define c' where "c' = (if inRange fromDate ms = [] then c
                             else Some (m_id (last (inRange fromDate ms))))"
      define n where "n = length (inRange fromDate ms)"
      define g where "g = (if length (inRange fromDate ms) = length ms then True else False)"
      define a' where "a' = fold p1 (inRange fromDate ms) a"
      define b' where "b' = fold p2 (inRange fromDate ms) b"
      have scan1: "scanPage p1 fromDate ms (a, c, 0, True) = (a', c', n, g)"
        by (simp add: scanPage_eq a'_def c'_def n_def g_def)
      have scan2: "scanPage p2 fromDate ms (b, c, 0, True) = (b', c', n, g)"
        by (simp add: scanPage_eq b'_def c'_def n_def g_def)
      have rel': "R a' b'"
        unfolding a'_def b'_def using step rel by (rule fold_rel)
      show ?thesis
      proof (cases "n \<noteq> 0 \<and> g")
        case True
        then have go: "(if n = 0 then False else g)" by simp
        from "1.IH"[OF Inr False scan2[symmetric] refl refl go step rel']
        have "R (scrapeLoop p1 fromDate limit h c' a') (scrapeLoop p2 fromDate limit h c' b')" .
        with Inr False scan1 scan2 True show ?thesis
          by (subst scrapeLoop.simps, subst (2) scrapeLoop.simps) simp
      next
        case stop: False
        with Inr False scan1 scan2 rel' show ?thesis
          by (subst scrapeLoop.simps, subst (2) scrapeLoop.simps) auto
      qed
    qed
  qed
qed

lemma await_quiet: "pending r = [] \<Longrightarrow> await cfg e r = r"
  by (simp add: await_def)

text \<open>The turn of the loop over the channels when no event arrives, as the program
  text has it.\<close>

lemma scrapeChannel_eq:
  "scrapeChannel cfg e fromDate cid st =
     (case channels_fetch e cid of
        Inl err \<Rightarrow> st
      | Inr None \<Rightarrow> st
      | Inr (Some ch) \<Rightarrow>
          (case ch_messages ch of
             None \<Rightarrow> st
           | Some h \<Rightarrow> scrapeLoop (processMessage cfg e) fromDate (BATCH_SIZE cfg) h None st))"
proof -
  define q where "q = (\<lambda>st. \<lparr>bot_state = st, pending = [], handled = []\<rparr>)"
  define p1 where "p1 = (\<lambda>msg r2. await cfg e (onBot (processMessage cfg e msg) (await cfg e r2)))"
  have q: "pending (q s) = []" "bot_state (q s) = s" for s
    by (simp_all add: q_def)
  have step: "p1 msg a = q (processMessage cfg e msg b)" if "a = q b" for msg a b
    unfolding that p1_def by (simp add: await_quiet onBot_def q_def)
  have loop: "scrapeLoop p1 fromDate limit h c (q st) =
                q (scrapeLoop (processMessage cfg e) fromDate limit h c st)" for limit h c
    by (rule scrapeLoop_rel[where R = "\<lambda>a b. a = q b"]) (simp_all add: step)
  have "scrapeChannelRun cfg e fromDate cid (q st) =
          q (case channels_fetch e cid of
               Inl err \<Rightarrow> st
             | Inr None \<Rightarrow> st
             | Inr (Some ch) \<Rightarrow>
                 (case ch_messages ch of
                    None \<Rightarrow> st
                  | Some h \<Rightarrow> scrapeLoop (processMessage cfg e) fromDate (BATCH_SIZE cfg) h None st))"
    unfolding scrapeChannelRun_def Let_def p1_def[symmetric]
    by (simp add: await_quiet q loop split: sum.splits option.splits)
  then show ?thesis
    by (simp add: scrapeChannel_def quiet_def q_def)
qed

lemma scrapeChannel_complete [simp]:
  "historicalScrapingComplete (scrapeChannel cfg e fromDate cid st) = historicalScrapingComplete st"
  by (simp add: scrapeChannel_eq scrapeLoop_keeps[where f = historicalScrapingComplete]
        split: sum.splits option.splits)

lemma gated_is_noop:
  assumes "ENABLE_HISTORICAL_SCRAPING cfg" and "\<not> historicalScrapingComplete st"
  shows "onMessageCreate cfg e msg st = st"
  using assms by (simp add: onMessageCreate_def liveMonitorActive_def)

lemma extract_one_link: "extractTwitterLinks ''https://x.com/a'' = [''https://x.com/a'']"
  by code_simp

text \<open>
  Claim C3 asks that, with historical scraping enabled and the cutoff date missing or
  malformed, the Live Monitor processes the events that follow. In the program
  \<open>scrapeHistoricalMessages\<close> returns early and never sets
  \<open>historicalScrapingComplete\<close>, so the handler of \<^verbatim>\<open>messageCreate\<close> drops every
  event from then on: the bot stays as it was, whatever messages arrive.
\<close>

theorem C3_missing_cutoff_leaves_live_monitor_gated:
  assumes "ENABLE_HISTORICAL_SCRAPING cfg"
    and "parseScrapingDate e (SCRAPE_FROM_DATE cfg) = None"
    and "\<not> historicalScrapingComplete st"
  shows "onReady cfg e st = st \<and> fold (onMessageCreate cfg e) msgs (onReady cfg e st) = st"
proof -
  from assms(1,2) have r: "onReady cfg e st = st"
    by (simp add: onReady_def scrapeHistoricalMessages_def quiet_def)
  have "fold (onMessageCreate cfg e) msgs st = st"
    by (induction msgs) (simp_all add: gated_is_noop[OF assms(1,3)])
  with r show ?thesis by simp
qed

theorem C3_missing_cutoff_leaves_live_monitor_gated_witness:
  "ENABLE_HISTORICAL_SCRAPING nodate_config \<and>
   parseScrapingDate example_env (SCRAPE_FROM_DATE nodate_config) = None \<and>
   storedDocuments nodate_config
     (fold (onMessageCreate nodate_config example_env) [example_message ''https://x.com/a'']
        (onReady nodate_config example_env constructor)) = [] \<and>
   map (\<lambda>d. url (link d))
     (storedDocuments nodate_config
        (processMessage nodate_config example_env (example_message ''https://x.com/a'') constructor)) =
     [''https://x.com/a'']"
proof -
  have en: "ENABLE_HISTORICAL_SCRAPING nodate_config"
    by (simp add: nodate_config_def)
  have nd: "parseScrapingDate example_env (SCRAPE_FROM_DATE nodate_config) = None"
    by (simp add: parseScrapingDate_def nodate_config_def)
  have nc: "\<not> historicalScrapingComplete constructor"
    by (simp add: constructor_def)
  have processed: "map (\<lambda>d. url (link d))
     (storedDocuments nodate_config
        (processMessage nodate_config example_env (example_message ''https://x.com/a'') constructor)) =
     [''https://x.com/a'']"
    by (simp add: processMessage_def processLink_def extract_one_link no_shortener_in_example
        expandShortUrl_def example_message_def nodate_config_def truthy_def allowedChannels_def
        newDate_def saveLinkToDatabase_def TEST_MODE_def constructor_def storedDocuments_def
        example_env_def Let_def)
  have empty: "storedDocuments nodate_config constructor = []"
    by (simp add: storedDocuments_def constructor_def TEST_MODE_def nodate_config_def)
  from C3_missing_cutoff_leaves_live_monitor_gated[OF en nd nc,
      of "[example_message ''https://x.com/a'']"]
  have "fold (onMessageCreate nodate_config example_env) [example_message ''https://x.com/a'']
          (onReady nodate_config example_env constructor) = constructor"
    by (rule conjunct2)
  with en nd processed empty show ?thesis
    by (simp only: simp_thms)
qed

section \<open>Link Resolver\<close>

lemma expand_other: "\<not> str_includes u ''t.co'' \<Longrightarrow> expandShortUrl e u = (u, [])"
  by (simp add: expandShortUrl_def)

lemma search_example:
  "extractTwitterLinks ''see https://x.com/search?q=about.com'' = [''https://x.com/search?q=about.com'']"
  "match_all shortPattern ''https://x.com/search?q=about.com'' 0 = []"
  "str_includes ''https://x.com/search?q=about.com'' ''t.co''"
  by code_simp+

text \<open>
  Claim C8 asks that the resolver return every URL that is not a link of the shortener
  unchanged, without a request. The program tests \<^verbatim>\<open>url.includes('t.co')\<close>, a
  substring test: a URL of another host that contains the four characters (here the
  query \<^verbatim>\<open>about.com\<close>) is requested, and the answer's URL replaces it. The extractor
  does hand such URLs to the resolver, and its own pattern for the shortener does not
  match them.
\<close>

theorem C8_substring_test_sends_request:
  assumes "str_includes u ''t.co''" and "httpHead e u = Inr (Some r)" and "r \<noteq> []"
  shows "expandShortUrl e u = (r, [u])"
  using assms by (simp add: expandShortUrl_def)

theorem C8_substring_test_sends_request_witness:
  "extractTwitterLinks ''see https://x.com/search?q=about.com'' = [''https://x.com/search?q=about.com''] \<and>
   match_all shortPattern ''https://x.com/search?q=about.com'' 0 = [] \<and>
   expandShortUrl example_env ''https://x.com/search?q=about.com'' =
     (''https://x.com/i/flow/login'', [''https://x.com/search?q=about.com''])"
proof -
  have "httpHead example_env ''https://x.com/search?q=about.com'' = Inr (Some ''https://x.com/i/flow/login'')"
    by (simp add: example_env_def)
  from C8_substring_test_sends_request[OF search_example(3) this] search_example(1,2)
  show ?thesis by simp
qed

section \<open>Historical Scraper\<close>

lemma older_again:
  assumes "x \<in> set (older c ms)"
  shows "older (Some (m_id x)) ms = filter (\<lambda>m. m_id m < m_id x) (older c ms)"
  using assms by (cases c) (auto simp: older_def intro!: filter_cong)

lemma last_is_least:
  "sorted_wrt (\<lambda>a b. f b < f a) ys \<Longrightarrow> x \<in> set ys \<Longrightarrow> (f (last ys) :: nat) \<le> f x"
proof (induction ys)
  case Nil
  then show ?case by simp
next
  case (Cons y ys)
  show ?case
  proof (cases "ys = []")
    case True
    with Cons.prems show ?thesis by simp
  next
    case False
    then have "last ys \<in> set ys" by simp
    with Cons.prems(1) have below: "f (last ys) < f y" by simp
    from False have l: "last (y # ys) = last ys" by simp
    show ?thesis
    proof (cases "x = y")
      case True
      with below show ?thesis unfolding l by simp
    next
      case other: False
      with Cons.prems have "x \<in> set ys" "sorted_wrt (\<lambda>a b. f b < f a) ys" by simp_all
      from Cons.IH[OF this(2,1)] show ?thesis unfolding l .
    qed
  qed
qed

lemma below_last_of_page:
  assumes sorted: "sorted_wrt (\<lambda>a b. m_id b < m_id a) xs" and nonempty: "take n xs \<noteq> []"
  shows "filter (\<lambda>m. m_id m < m_id (last (take n xs))) xs = drop n xs"
proof -
  let ?l = "m_id (last (take n xs))"
  from sorted have split: "sorted_wrt (\<lambda>a b. m_id b < m_id a) (take n xs @ drop n xs)"
    by simp
  then have st: "sorted_wrt (\<lambda>a b. m_id b < m_id a) (take n xs)"
    and cross: "\<forall>x \<in> set (take n xs). \<forall>y \<in> set (drop n xs). m_id y < m_id x"
    by (simp_all only: sorted_wrt_append) blast+
  have "\<forall>x \<in> set (take n xs). \<not> m_id x < ?l"
    using last_is_least[OF st] by (simp add: not_less)
  then have a: "filter (\<lambda>m. m_id m < ?l) (take n xs) = []"
    by (simp add: filter_empty_conv)
  from nonempty have "last (take n xs) \<in> set (take n xs)" by simp
  with cross have "\<forall>y \<in> set (drop n xs). m_id y < ?l" by blast
  then have b: "filter (\<lambda>m. m_id m < ?l) (drop n xs) = drop n xs"
    by (simp add: filter_id_conv)
  have "filter (\<lambda>m. m_id m < ?l) xs = filter (\<lambda>m. m_id m < ?l) (take n xs @ drop n xs)"
    by simp
  also have "\<dots> = drop n xs"
    by (simp only: filter_append a b append_Nil)
  finally show ?thesis .
qed

lemma takeWhile_of_page:
  assumes "takeWhile P (take n xs) \<noteq> take n xs"
  shows "takeWhile P xs = takeWhile P (take n xs)"
proof -
  from assms obtain x where x: "x \<in> set (take n xs)" "\<not> P x"
    by (auto simp: takeWhile_eq_all_conv)
  have "takeWhile P (take n xs @ drop n xs) = takeWhile P (take n xs)"
    using x by (rule takeWhile_append1)
  then show ?thesis by simp
qed

lemma takeWhile_past_page:
  assumes "takeWhile P (take n xs) = take n xs"
  shows "takeWhile P xs = take n xs @ takeWhile P (drop n xs)"
proof -
  from assms have "\<And>x. x \<in> set (take n xs) \<Longrightarrow> P x"
    by (simp add: takeWhile_eq_all_conv)
  then have "takeWhile P (take n xs @ drop n xs) = take n xs @ takeWhile P (drop n xs)"
    by (rule takeWhile_append2)
  then show ?thesis
    by (simp only: append_take_drop_id)
qed

lemma scrapeLoop_eq:
  "(\<And>c. h_failure h c = None) \<Longrightarrow> sorted_wrt (\<lambda>a b. m_id b < m_id a) (h_messages h) \<Longrightarrow>
   0 < limit \<Longrightarrow>
   scrapeLoop proc fromDate limit h c st =
     fold proc (inRange fromDate (older c (h_messages h))) st"
proof (induction proc fromDate limit h c st rule: scrapeLoop.induct)
  case (1 proc fromDate limit h c st)
  let ?xs = "older c (h_messages h)"
  let ?ms = "take limit ?xs"
  have fetch: "messages_fetch h limit c = Inr ?ms"
    by (simp add: messages_fetch_def "1.prems"(1))
  have sorted_xs: "sorted_wrt (\<lambda>a b. m_id b < m_id a) ?xs"
    using "1.prems"(2) by (cases c) (simp_all add: older_def sorted_wrt_filter)
  show ?case
  proof (cases "?ms = []")
    case True
    with "1.prems"(3) have "?xs = []" by simp
    with fetch show ?thesis
      by (subst scrapeLoop.simps) (simp add: inRange_def)
  next
    case False
    obtain st' c' n b where scan: "scanPage proc fromDate ?ms (st, c, 0, True) = (st', c', n, b)"
      by (metis prod_cases4)
    have "(st', c', n, b) =
            (fold proc (inRange fromDate ?ms) st,
             (if inRange fromDate ?ms = [] then c
              else Some (m_id (last (inRange fromDate ?ms)))),
             0 + length (inRange fromDate ?ms),
             (if length (inRange fromDate ?ms) = length ?ms then True else False))"
      unfolding scan[symmetric] by (rule scanPage_eq)
    then have st': "st' = fold proc (inRange fromDate ?ms) st"
      and n: "n = length (inRange fromDate ?ms)"
      and b: "b = (length (inRange fromDate ?ms) = length ?ms)"
      and c': "c' = (if inRange fromDate ?ms = [] then c
                     else Some (m_id (last (inRange fromDate ?ms))))"
      by simp_all
    show ?thesis
    proof (cases "n \<noteq> 0 \<and> b")
      case True
      then have go: "(if n = 0 then False else b)" by simp
      from True b have full: "inRange fromDate ?ms = ?ms"
        unfolding inRange_def by (intro takeWhile_full) simp
      with c' False have c'': "c' = Some (m_id (last ?ms))" by simp
      have "last ?ms \<in> set ?ms" using False by simp
      then have "last ?ms \<in> set ?xs" by (rule in_set_takeD)
      from older_again[OF this]
      have "older c' (h_messages h) = filter (\<lambda>m. m_id m < m_id (last ?ms)) ?xs"
        by (simp add: c'')
      also have "\<dots> = drop limit ?xs"
        by (rule below_last_of_page[OF sorted_xs False])
      finally have next_page: "older c' (h_messages h) = drop limit ?xs" .
      from "1.IH"[OF fetch False scan[symmetric] refl refl go "1.prems"]
      have "scrapeLoop proc fromDate limit h c' st' =
              fold proc (inRange fromDate (drop limit ?xs)) st'"
        by (simp add: next_page)
      moreover have "inRange fromDate ?xs = ?ms @ inRange fromDate (drop limit ?xs)"
        using full unfolding inRange_def by (rule takeWhile_past_page)
      ultimately show ?thesis
        using fetch False scan True
        by (subst scrapeLoop.simps) (simp add: st' full)
    next
      case stop: False
      from False have len_ms: "length ?ms \<noteq> 0"
        by (simp only: length_0_conv not_False_eq_True)
      have "length (inRange fromDate ?ms) \<noteq> length ?ms"
      proof (cases "n = 0")
        case True
        with n len_ms show ?thesis by (simp only:)
      next
        case False
        with stop have "\<not> b" by simp
        with b show ?thesis by blast
      qed
      then have "inRange fromDate ?ms \<noteq> ?ms" by auto
      then have "inRange fromDate ?xs = inRange fromDate ?ms"
        unfolding inRange_def by (rule takeWhile_of_page)
      with fetch False scan stop show ?thesis
        by (subst scrapeLoop.simps) (auto simp: st')
    qed
  qed
qed

lemma inRange_is_filter:
  assumes "sorted_wrt (\<lambda>a b. m_createdAt b \<le> m_createdAt a) ms"
  shows "inRange fromDate ms = filter (\<lambda>msg. fromDate \<le> m_createdAt msg) ms"
  using assms
proof (induction ms)
  case Nil
  show ?case by (simp add: inRange_def)
next
  case (Cons m ms)
  show ?case
  proof (cases "m_createdAt m < fromDate")
    case True
    with Cons.prems have "\<forall>x \<in> set ms. \<not> fromDate \<le> m_createdAt x"
      by auto
    then have "filter (\<lambda>msg. fromDate \<le> m_createdAt msg) ms = []"
      by (simp add: filter_empty_conv)
    with True show ?thesis by (simp add: inRange_def)
  next
    case False
    with Cons show ?thesis by (simp add: inRange_def not_less)
  qed
qed

lemma inRange_since:
  "\<forall>msg \<in> set (inRange fromDate ms). fromDate \<le> m_createdAt msg"
  by (auto simp: inRange_def dest: set_takeWhileD)

lemma descending_distinct:
  "sorted_wrt (\<lambda>a b. f b < f a) xs \<Longrightarrow> distinct (map (f :: 'a \<Rightarrow> nat) xs)"
  by (induction xs) auto

lemma inRange_distinct:
  assumes "sorted_wrt (\<lambda>a b. m_id b < m_id a) ms"
  shows "distinct (map m_id (inRange fromDate ms))"
proof -
  from assms have "distinct (map m_id ms)"
    by (rule descending_distinct)
  then have "distinct (map m_id (takeWhile (\<lambda>msg. \<not> m_createdAt msg < fromDate) ms @
                                  dropWhile (\<lambda>msg. \<not> m_createdAt msg < fromDate) ms))"
    by simp
  then show ?thesis
    unfolding inRange_def map_append distinct_append by blast
qed

text \<open>
  Claim C5. Let the channel hold its messages newest first (identifiers strictly
  descending), let no fetch fail and let the batch size be positive. Then the traversal
  of the channel, for a cutoff \<open>fromDate\<close> and any per-message action \<open>proc\<close>, ends
  in the state reached by applying \<open>proc\<close> once, in order, to the messages before the
  first one whose creation time is earlier than the cutoff: that message and everything
  after it are not processed. Every processed message is at or after the cutoff, and no
  message is processed twice. When the creation times descend along the channel too,
  the processed messages are exactly the messages of the channel at or after the
  cutoff. For a channel of the allow-list the action is \<open>processMessage\<close>.
\<close>

theorem C5_scraper_processes_messages_since_cutoff:
  assumes "\<forall>c. h_failure h c = None"
    and "sorted_wrt (\<lambda>a b. m_id b < m_id a) (h_messages h)"
    and "0 < limit"
  shows "scrapeLoop proc fromDate limit h None st = fold proc (inRange fromDate (h_messages h)) st \<and>
         (\<forall>msg \<in> set (inRange fromDate (h_messages h)). fromDate \<le> m_createdAt msg) \<and>
         distinct (map m_id (inRange fromDate (h_messages h))) \<and>
         (sorted_wrt (\<lambda>a b. m_createdAt b \<le> m_createdAt a) (h_messages h) \<longrightarrow>
            inRange fromDate (h_messages h) =
              filter (\<lambda>msg. fromDate \<le> m_createdAt msg) (h_messages h)) \<and>
         (limit = BATCH_SIZE cfg \<and> channels_fetch e cid = Inr (Some ch) \<and> ch_messages ch = Some h \<longrightarrow>
            scrapeChannel cfg e fromDate cid bt =
              fold (processMessage cfg e) (inRange fromDate (h_messages h)) bt)"
proof (intro conjI impI)
  have nofail: "\<And>c. h_failure h c = None"
    using assms(1) by simp
  from scrapeLoop_eq[OF nofail assms(2,3), of proc fromDate None st]
  show "scrapeLoop proc fromDate limit h None st = fold proc (inRange fromDate (h_messages h)) st"
    by (simp add: older_def)
  show "\<forall>msg \<in> set (inRange fromDate (h_messages h)). fromDate \<le> m_createdAt msg"
    by (rule inRange_since)
  show "distinct (map m_id (inRange fromDate (h_messages h)))"
    by (rule inRange_distinct[OF assms(2)])
  show "inRange fromDate (h_messages h) = filter (\<lambda>msg. fromDate \<le> m_createdAt msg) (h_messages h)"
    if "sorted_wrt (\<lambda>a b. m_createdAt b \<le> m_createdAt a) (h_messages h)"
    using that by (rule inRange_is_filter)
  show "scrapeChannel cfg e fromDate cid bt =
              fold (processMessage cfg e) (inRange fromDate (h_messages h)) bt"
    if "limit = BATCH_SIZE cfg \<and> channels_fetch e cid = Inr (Some ch) \<and> ch_messages ch = Some h"
    using that scrapeLoop_eq[OF nofail assms(2,3), of "processMessage cfg e" fromDate None bt]
    by (simp add: scrapeChannel_eq older_def)
qed

theorem C5_scraper_processes_messages_since_cutoff_witness:
  "scrapeLoop (\<lambda>msg seen. seen @ [m_id msg]) 250 1 example_history None [] = [40, 30] \<and>
   scrapeLoop (\<lambda>msg seen. seen @ [m_id msg]) 250 100 example_history None [] = [40, 30] \<and>
   map m_id (filter (\<lambda>msg. 250 \<le> m_createdAt msg) (h_messages example_history)) = [40, 30]"
proof -
  have nofail: "\<forall>c. h_failure example_history c = None"
    by (simp add: example_history_def)
  have sorted: "sorted_wrt (\<lambda>a b. m_id b < m_id a) (h_messages example_history)"
    by (simp add: example_history_def example_message_at_def)
  have r: "inRange 250 (h_messages example_history) =
             [example_message_at 40 400, example_message_at 30 300]"
    by (simp add: inRange_def example_history_def example_message_at_def)
  have f: "map m_id (filter (\<lambda>msg. 250 \<le> m_createdAt msg) (h_messages example_history)) = [40, 30]"
    by (simp add: example_history_def example_message_at_def)
  have ids: "m_id (example_message_at 40 400) = 40" "m_id (example_message_at 30 300) = 30"
    by (simp_all add: example_message_at_def)
  from C5_scraper_processes_messages_since_cutoff[OF nofail sorted, of 1
        "\<lambda>msg seen. seen @ [m_id msg]" 250 "[]"]
       C5_scraper_processes_messages_since_cutoff[OF nofail sorted, of 100
        "\<lambda>msg seen. seen @ [m_id msg]" 250 "[]"]
  have "scrapeLoop (\<lambda>msg seen. seen @ [m_id msg]) 250 1 example_history None [] = [40, 30]"
    and "scrapeLoop (\<lambda>msg seen. seen @ [m_id msg]) 250 100 example_history None [] = [40, 30]"
    by (simp_all add: r ids)
  with f show ?thesis by simp
qed

section \<open>Gating of the Live Monitor while the scraper runs\<close>

lemma deliver_closed:
  assumes "ENABLE_HISTORICAL_SCRAPING cfg" and "\<not> historicalScrapingComplete (bot_state r)"
  shows "deliver cfg e msg r = r"
  using assms by (simp add: deliver_def onMessageCreate_def liveMonitorActive_def)

lemma fold_deliver_closed:
  assumes "ENABLE_HISTORICAL_SCRAPING cfg" and "\<not> historicalScrapingComplete (bot_state r)"
  shows "fold (deliver cfg e) batch r = r"
  by (induction batch) (simp_all add: deliver_closed[OF assms])

lemma await_closed:
  assumes en: "ENABLE_HISTORICAL_SCRAPING cfg" and nc: "\<not> historicalScrapingComplete (bot_state r)"
  shows "bot_state (await cfg e r) = bot_state r" and "handled (await cfg e r) = handled r"
proof -
  have "bot_state (await cfg e r) = bot_state r \<and> handled (await cfg e r) = handled r"
  proof (cases "pending r")
    case Nil
    then show ?thesis by (simp add: await_def)
  next
    case (Cons batch rest)
    have "\<not> historicalScrapingComplete (bot_state (r\<lparr>pending := rest\<rparr>))"
      using nc by simp
    from fold_deliver_closed[OF en this] Cons show ?thesis
      by (simp add: await_def)
  qed
  then show "bot_state (await cfg e r) = bot_state r" and "handled (await cfg e r) = handled r"
    by simp_all
qed

lemma scrapeChannelRun_closed:
  assumes en: "ENABLE_HISTORICAL_SCRAPING cfg" and nc: "\<not> historicalScrapingComplete (bot_state r)"
  shows "bot_state (scrapeChannelRun cfg e fromDate cid r) =
           scrapeChannel cfg e fromDate cid (bot_state r)"
    and "handled (scrapeChannelRun cfg e fromDate cid r) = handled r"
proof -
  define R where "R = (\<lambda>(a::run) b. bot_state a = b \<and> handled a = handled r \<and>
                              \<not> historicalScrapingComplete b)"
  define p1 where "p1 = (\<lambda>msg r2. await cfg e (onBot (processMessage cfg e msg) (await cfg e r2)))"
  have wait: "R (await cfg e a) b" if "R a b" for a b
  proof -
    from that have "\<not> historicalScrapingComplete (bot_state a)" by (simp add: R_def)
    from await_closed[OF en this] that show ?thesis by (simp add: R_def)
  qed
  have work: "R (onBot (processMessage cfg e msg) a) (processMessage cfg e msg b)" if "R a b" for msg a b
    using that by (simp add: R_def onBot_def)
  have step: "R (p1 msg a) (processMessage cfg e msg b)" if "R a b" for msg a b
    unfolding p1_def by (intro wait work that)
  have start: "R r (bot_state r)"
    using nc by (simp add: R_def)
  have loop: "R (scrapeLoop p1 fromDate limit h c (await cfg e r))
                (scrapeLoop (processMessage cfg e) fromDate limit h c (bot_state r))" for limit h c
    using step wait[OF start] by (rule scrapeLoop_rel)
  have "R (scrapeChannelRun cfg e fromDate cid r) (scrapeChannel cfg e fromDate cid (bot_state r))"
    unfolding scrapeChannelRun_def Let_def scrapeChannel_eq p1_def[symmetric]
    by (simp add: wait[OF start] wait[OF loop] split: sum.splits option.splits)
  then show "bot_state (scrapeChannelRun cfg e fromDate cid r) =
           scrapeChannel cfg e fromDate cid (bot_state r)"
    and "handled (scrapeChannelRun cfg e fromDate cid r) = handled r"
    by (simp_all add: R_def)
qed

lemma channels_closed:
  assumes en: "ENABLE_HISTORICAL_SCRAPING cfg"
  shows "\<not> historicalScrapingComplete (bot_state r) \<Longrightarrow>
         bot_state (fold (scrapeChannelRun cfg e fromDate) chans r) =
           fold (scrapeChannel cfg e fromDate) chans (bot_state r) \<and>
         handled (fold (scrapeChannelRun cfg e fromDate) chans r) = handled r"
proof (induction chans arbitrary: r)
  case Nil
  show ?case by simp
next
  case (Cons cid chans)
  note one = scrapeChannelRun_closed[OF en Cons.prems, of e fromDate cid]
  have "\<not> historicalScrapingComplete (bot_state (scrapeChannelRun cfg e fromDate cid r))"
    using Cons.prems by (simp add: one(1))
  from Cons.IH[OF this] show ?case
    by (simp add: one)
qed

lemma scrapeChannelRun_quiet:
  "scrapeChannelRun cfg e fromDate cid \<lparr>bot_state = st, pending = [], handled = []\<rparr> =
     \<lparr>bot_state = scrapeChannel cfg e fromDate cid st, pending = [], handled = []\<rparr>"
proof -
  define q where "q = (\<lambda>st. \<lparr>bot_state = st, pending = [], handled = []\<rparr>)"
  define p1 where "p1 = (\<lambda>msg r2. await cfg e (onBot (processMessage cfg e msg) (await cfg e r2)))"
  have q: "pending (q s) = []" "bot_state (q s) = s" for s
    by (simp_all add: q_def)
  have step: "p1 msg a = q (processMessage cfg e msg b)" if "a = q b" for msg a b
    unfolding that p1_def by (simp add: await_quiet onBot_def q_def)
  have loop: "scrapeLoop p1 fromDate limit h c (q st) =
                q (scrapeLoop (processMessage cfg e) fromDate limit h c st)" for limit h c
    by (rule scrapeLoop_rel[where R = "\<lambda>a b. a = q b"]) (simp_all add: step)
  have "scrapeChannelRun cfg e fromDate cid (q st) = q (scrapeChannel cfg e fromDate cid st)"
    unfolding scrapeChannelRun_def Let_def p1_def[symmetric] scrapeChannel_eq
    by (simp add: await_quiet q loop split: sum.splits option.splits)
  then show ?thesis by (simp add: q_def)
qed

lemma channels_quiet:
  "fold (scrapeChannelRun cfg e fromDate) chans \<lparr>bot_state = st, pending = [], handled = []\<rparr> =
     \<lparr>bot_state = fold (scrapeChannel cfg e fromDate) chans st, pending = [], handled = []\<rparr>"
  by (induction chans arbitrary: st) (simp_all add: scrapeChannelRun_quiet)

lemma scraper_closed:
  assumes en: "ENABLE_HISTORICAL_SCRAPING cfg" and nc: "\<not> historicalScrapingComplete (bot_state r)"
  shows "handled (scrapeHistoricalMessages cfg e r) = handled r"
    and "bot_state (scrapeHistoricalMessages cfg e r) =
           quiet (scrapeHistoricalMessages cfg e) (bot_state r)"
proof -
  have nc2: "\<not> historicalScrapingComplete
               (bot_state (r\<lparr>bot_state := (bot_state r)\<lparr>ticks := Suc (ticks (bot_state r)),
                                                        scrapingInProgress := True\<rparr>\<rparr>))"
    using nc by simp
  note ch = channels_closed[OF en nc2]
  show "handled (scrapeHistoricalMessages cfg e r) = handled r"
    using en by (simp add: scrapeHistoricalMessages_def newDate_def Let_def onBot_def ch
        split: option.splits)
  show "bot_state (scrapeHistoricalMessages cfg e r) =
           quiet (scrapeHistoricalMessages cfg e) (bot_state r)"
    using en by (simp add: scrapeHistoricalMessages_def quiet_def newDate_def Let_def onBot_def ch
        channels_quiet split: option.splits)
qed

lemma scraper_completes:
  assumes "ENABLE_HISTORICAL_SCRAPING cfg"
    and "parseScrapingDate e (SCRAPE_FROM_DATE cfg) \<noteq> None" and "allowedChannels cfg \<noteq> []"
  shows "historicalScrapingComplete (bot_state (scrapeHistoricalMessages cfg e r))"
  using assms by (auto simp: scrapeHistoricalMessages_def newDate_def Let_def onBot_def)


lemma extract_other_link: "extractTwitterLinks ''https://x.com/b'' = [''https://x.com/b'']"
  by code_simp

lemma example_pages:
  "scrapeLoop proc 250 100 example_history None st =
     fold proc [example_message_at 40 400, example_message_at 30 300] st"
proof -
  have nofail: "\<And>c. h_failure example_history c = None"
    by (simp add: example_history_def)
  have sorted: "sorted_wrt (\<lambda>a b. m_id b < m_id a) (h_messages example_history)"
    by (simp add: example_history_def example_message_at_def)
  have r: "inRange 250 (h_messages example_history) =
             [example_message_at 40 400, example_message_at 30 300]"
    by (simp add: inRange_def example_history_def example_message_at_def)
  from scrapeLoop_eq[OF nofail sorted, of 100 proc 250 None st] show ?thesis
    by (simp add: older_def r)
qed

lemma example_processing:
  "processMessage scrape_config scrape_env (example_message_at i t) st =
     st\<lparr>ticks := Suc (ticks st),
        testModeLinks :=
          (if \<exists>l \<in> set (testModeLinks st). messageId (link l) = i \<and> url (link l) = ''https://x.com/a''
           then testModeLinks st
           else testModeLinks st @
             [\<lparr>link = \<lparr>url = ''https://x.com/a'', originalUrl = ''https://x.com/a'', messageId = i,
                channelId = ''c1'', channelName = ''general'', guildId = None, guildName = None,
                authorId = ''u1'', authorUsername = ''ann'', authorDisplayName = ''ann'',
                messageContent = ''https://x.com/a'', messageTimestamp = t,
                foundAt = 1000 + int (ticks st)\<rparr>, createdAt = None\<rparr>])\<rparr>"
  by (simp add: processMessage_def processLink_def extract_one_link no_shortener_in_example
        expandShortUrl_def example_message_at_def example_message_def scrape_config_def truthy_def
        allowedChannels_def newDate_def saveLinkToDatabase_def TEST_MODE_def scrape_env_def Let_def
        findIndex_None findIndex_Some split: option.splits)


text \<open>
  Claim C4. Let historical scraping be enabled, and let the scraper start in a state in
  which \<open>historicalScrapingComplete\<close> is not set: so it is in the state the constructor
  builds and in the state \<^verbatim>\<open>connectToMongoDB\<close> leaves. Whatever \<^verbatim>\<open>messageCreate\<close>
  events arrive, at whatever awaits of \<open>scrapeHistoricalMessages\<close> (the batches
  \<open>pending r\<close>), the Live Monitor passes none of them to \<^verbatim>\<open>processMessage\<close>: the
  messages it has processed are the same after the scraper as before it, and the bot
  ends as in the run in which no event arrives. An event delivered before the scraper
  starts changes nothing either. Only the last statement of the scraper, after the loop
  over every configured channel, sets the flag: when the cutoff date parses and a
  channel is configured, the flag is set when the scraper returns, and an event
  delivered then is processed. When historical scraping is disabled the handler
  processes every event, in any state, the initial one included.
\<close>

theorem C4_live_monitor_gated_until_scraping_complete:
  "(ENABLE_HISTORICAL_SCRAPING cfg \<and> \<not> historicalScrapingComplete (bot_state r) \<longrightarrow>
      deliver cfg e msg r = r \<and>
      handled (scrapeHistoricalMessages cfg e r) = handled r \<and>
      bot_state (scrapeHistoricalMessages cfg e r) =
        quiet (scrapeHistoricalMessages cfg e) (bot_state r) \<and>
      (parseScrapingDate e (SCRAPE_FROM_DATE cfg) \<noteq> None \<and> allowedChannels cfg \<noteq> [] \<longrightarrow>
         historicalScrapingComplete (bot_state (scrapeHistoricalMessages cfg e r)) \<and>
         handled (deliver cfg e msg (scrapeHistoricalMessages cfg e r)) = handled r @ [msg])) \<and>
   (\<not> ENABLE_HISTORICAL_SCRAPING cfg \<longrightarrow>
      onMessageCreate cfg e msg st = processMessage cfg e msg st \<and>
      handled (deliver cfg e msg r) = handled r @ [msg]) \<and>
   \<not> historicalScrapingComplete constructor \<and>
   (connectToMongoDB cfg server constructor = Inr st0 \<longrightarrow> \<not> historicalScrapingComplete st0)"
proof (intro conjI impI)
  assume a: "ENABLE_HISTORICAL_SCRAPING cfg \<and> \<not> historicalScrapingComplete (bot_state r)"
  then have en: "ENABLE_HISTORICAL_SCRAPING cfg"
    and nc: "\<not> historicalScrapingComplete (bot_state r)"
    by simp_all
  show "deliver cfg e msg r = r"
    using en nc by (rule deliver_closed)
  show same: "handled (scrapeHistoricalMessages cfg e r) = handled r"
    using en nc by (rule scraper_closed)
  show "bot_state (scrapeHistoricalMessages cfg e r) =
          quiet (scrapeHistoricalMessages cfg e) (bot_state r)"
    using en nc by (rule scraper_closed)
  assume b: "parseScrapingDate e (SCRAPE_FROM_DATE cfg) \<noteq> None \<and> allowedChannels cfg \<noteq> []"
  with en have fin: "historicalScrapingComplete (bot_state (scrapeHistoricalMessages cfg e r))"
    by (simp add: scraper_completes)
  then show "historicalScrapingComplete (bot_state (scrapeHistoricalMessages cfg e r))" .
  from fin show "handled (deliver cfg e msg (scrapeHistoricalMessages cfg e r)) = handled r @ [msg]"
    by (simp add: deliver_def liveMonitorActive_def same)
next
  assume "\<not> ENABLE_HISTORICAL_SCRAPING cfg"
  then show "onMessageCreate cfg e msg st = processMessage cfg e msg st"
    and "handled (deliver cfg e msg r) = handled r @ [msg]"
    by (simp_all add: onMessageCreate_def deliver_def liveMonitorActive_def)
next
  show "\<not> historicalScrapingComplete constructor"
    by (simp add: constructor_def)
next
  assume "connectToMongoDB cfg server constructor = Inr st0"
  then show "\<not> historicalScrapingComplete st0"
    by (auto simp: connectToMongoDB_def constructor_def split: if_splits sum.splits)
qed

theorem C4_live_monitor_gated_until_scraping_complete_witness:
  "handled (scrapeHistoricalMessages scrape_config scrape_env (example_run constructor)) = [] \<and>
   map (\<lambda>d. (messageId (link d), url (link d)))
     (storedDocuments scrape_config
        (bot_state (scrapeHistoricalMessages scrape_config scrape_env (example_run constructor)))) =
     [(40, ''https://x.com/a''), (30, ''https://x.com/a'')] \<and>
   pending (scrapeHistoricalMessages scrape_config scrape_env (example_run constructor)) =
     [[live_message 56]] \<and>
   handled (deliver scrape_config scrape_env (live_message 56)
              (scrapeHistoricalMessages scrape_config scrape_env (example_run constructor))) =
     [live_message 56] \<and>
   handled (scrapeHistoricalMessages scrape_config scrape_env
              (example_run (constructor\<lparr>historicalScrapingComplete := True\<rparr>))) =
     [live_message 51, live_message 52, live_message 53, live_message 54, live_message 55] \<and>
   onMessageCreate test_config example_env (example_message ''https://x.com/a'') constructor =
     processMessage test_config example_env (example_message ''https://x.com/a'') constructor"
proof -
  have en: "ENABLE_HISTORICAL_SCRAPING scrape_config"
    by (simp add: scrape_config_def)
  have dis: "\<not> ENABLE_HISTORICAL_SCRAPING test_config"
    by (simp add: test_config_def)
  have nc: "\<not> historicalScrapingComplete (bot_state (example_run constructor))"
    by (simp add: example_run_def constructor_def)
  have date: "parseScrapingDate scrape_env (SCRAPE_FROM_DATE scrape_config) = Some 250"
    by (simp add: parseScrapingDate_def scrape_config_def scrape_env_def)
  have chans: "allowedChannels scrape_config = [''c1'']"
    by (simp add: allowedChannels_def scrape_config_def)
  have fetch: "channels_fetch scrape_env cid =
                 Inr (Some \<lparr>ch_name = ''general'', ch_messages = Some example_history\<rparr>)" for cid
    by (simp add: scrape_env_def)
  have batch: "BATCH_SIZE scrape_config = 100"
    by (simp add: scrape_config_def)
  have test: "TEST_MODE scrape_config"
    by (simp add: TEST_MODE_def scrape_config_def)
  note gated = C4_live_monitor_gated_until_scraping_complete[of scrape_config
      "example_run constructor" scrape_env "live_message 56"]
  from gated en nc have h: "handled (scrapeHistoricalMessages scrape_config scrape_env (example_run constructor)) =
      handled (example_run constructor)"
    and b: "bot_state (scrapeHistoricalMessages scrape_config scrape_env (example_run constructor)) =
      quiet (scrapeHistoricalMessages scrape_config scrape_env) (bot_state (example_run constructor))"
    by blast+
  from gated en nc date chans
  have late: "handled (deliver scrape_config scrape_env (live_message 56)
              (scrapeHistoricalMessages scrape_config scrape_env (example_run constructor))) =
     handled (example_run constructor) @ [live_message 56]"
    by simp
  have q: "map (\<lambda>d. (messageId (link d), url (link d)))
     (storedDocuments scrape_config
        (quiet (scrapeHistoricalMessages scrape_config scrape_env) constructor)) =
     [(40, ''https://x.com/a''), (30, ''https://x.com/a'')]"
    by (simp add: quiet_def scrapeHistoricalMessages_def en date chans newDate_def onBot_def
        scrapeChannelRun_quiet scrapeChannel_eq fetch batch example_pages example_processing
        storedDocuments_def test constructor_def)
  have closed: "\<not> liveMonitorActive scrape_config st" if "\<not> historicalScrapingComplete st" for st
    using that en by (simp add: liveMonitorActive_def)
  have p: "pending (scrapeHistoricalMessages scrape_config scrape_env (example_run constructor)) =
     [[live_message 56]]"
    by (simp add: scrapeHistoricalMessages_def en date chans newDate_def onBot_def
        scrapeChannelRun_def fetch batch example_pages example_processing example_run_def
        await_def deliver_def onMessageCreate_def closed constructor_def)
  have live: "processMessage scrape_config scrape_env (live_message i) st =
                st\<lparr>ticks := ticks (processMessage scrape_config scrape_env (live_message i) st),
                   testModeLinks := testModeLinks (processMessage scrape_config scrape_env (live_message i) st)\<rparr>"
    for i st
    by (simp add: processMessage_def processLink_def newDate_def saveLinkToDatabase_def test Let_def
        fold_keeps split: option.splits)
  have opened: "liveMonitorActive scrape_config st" if "historicalScrapingComplete st" for st
    using that by (simp add: liveMonitorActive_def)
  have c: "handled (scrapeHistoricalMessages scrape_config scrape_env
              (example_run (constructor\<lparr>historicalScrapingComplete := True\<rparr>))) =
     [live_message 51, live_message 52, live_message 53, live_message 54, live_message 55]"
    by (simp add: scrapeHistoricalMessages_def en date chans newDate_def onBot_def
        scrapeChannelRun_def fetch batch example_pages example_run_def
        await_def deliver_def onMessageCreate_def opened constructor_def)
  from C4_live_monitor_gated_until_scraping_complete[of test_config _ example_env
      "example_message ''https://x.com/a''" constructor] dis
  have d: "onMessageCreate test_config example_env (example_message ''https://x.com/a'') constructor =
     processMessage test_config example_env (example_message ''https://x.com/a'') constructor"
    by simp
  from h b late q p c d show ?thesis
    by (simp add: example_run_def)
qed
section \<open>Link Extractor: matching\<close>

lemma implementsD1:
  "implements R A \<Longrightarrow> R k s = Some r \<Longrightarrow> \<exists>m t. s = m @ t \<and> m \<in> A \<and> k t = Some r"
  unfolding implements_def by blast

lemma implementsD2:
  "implements R A \<Longrightarrow> m \<in> A \<Longrightarrow> k t \<noteq> None \<Longrightarrow> R k (m @ t) \<noteq> None"
  unfolding implements_def by blast

lemma implementsI:
  assumes "\<And>k s r. R k s = Some r \<Longrightarrow> \<exists>m t. s = m @ t \<and> m \<in> A \<and> k t = Some r"
    and "\<And>k m t. m \<in> A \<Longrightarrow> k t \<noteq> None \<Longrightarrow> R k (m @ t) \<noteq> None"
  shows "implements R A"
  unfolding implements_def using assms by blast

lemma implements_lit: "implements (re_lit p) {p}"
proof (rule implementsI)
  fix k :: "'a cont" and s r
  assume "re_lit p k s = Some r"
  then have "take (length p) s = p" "k (drop (length p) s) = Some r"
    by (auto simp: re_lit_def split: if_splits)
  then have "s = p @ drop (length p) s \<and> p \<in> {p} \<and> k (drop (length p) s) = Some r"
    by (metis append_take_drop_id singletonI)
  then show "\<exists>m t. s = m @ t \<and> m \<in> {p} \<and> k t = Some r" by blast
next
  fix k :: "'a cont" and m t
  assume "m \<in> {p}" "k t \<noteq> None"
  then show "re_lit p k (m @ t) \<noteq> None"
    by (simp add: re_lit_def)
qed

lemma implements_lit_ci: "implements (re_lit_ci p) (lang_ci p)"
proof (rule implementsI)
  fix k :: "'a cont" and s r
  assume "re_lit_ci p k s = Some r"
  then have "map canonicalize (take (length p) s) = map canonicalize p"
      "k (drop (length p) s) = Some r"
    by (auto simp: re_lit_ci_def split: if_splits)
  then have "s = take (length p) s @ drop (length p) s \<and> take (length p) s \<in> lang_ci p \<and>
             k (drop (length p) s) = Some r"
    by (simp add: lang_ci_def)
  then show "\<exists>m t. s = m @ t \<and> m \<in> lang_ci p \<and> k t = Some r" by blast
next
  fix k :: "'a cont" and m t
  assume m: "m \<in> lang_ci p" and kt: "k t \<noteq> None"
  from m have eq: "map canonicalize m = map canonicalize p"
    by (simp add: lang_ci_def)
  then have "length m = length p"
    by (metis length_map)
  with eq kt show "re_lit_ci p k (m @ t) \<noteq> None"
    by (simp add: re_lit_ci_def)
qed

lemma implements_opt:
  assumes "implements R A"
  shows "implements (re_opt R) (insert [] A)"
proof (rule implementsI)
  fix k :: "'a cont" and s r
  assume a: "re_opt R k s = Some r"
  show "\<exists>m t. s = m @ t \<and> m \<in> insert [] A \<and> k t = Some r"
  proof (cases "R k s")
    case None
    with a have "k s = Some r" by (simp add: re_opt_def)
    then have "s = [] @ s \<and> [] \<in> insert [] A \<and> k s = Some r" by simp
    then show ?thesis by blast
  next
    case (Some x)
    with a have "R k s = Some r" by (simp add: re_opt_def)
    from implementsD1[OF assms this] obtain m t where "s = m @ t" "m \<in> A" "k t = Some r"
      by blast
    then have "s = m @ t \<and> m \<in> insert [] A \<and> k t = Some r" by simp
    then show ?thesis by blast
  qed
next
  fix k :: "'a cont" and m t
  assume m: "m \<in> insert [] A" and kt: "k t \<noteq> None"
  show "re_opt R k (m @ t) \<noteq> None"
  proof (cases "R k (m @ t)")
    case (Some x)
    then show ?thesis by (simp add: re_opt_def)
  next
    case None
    have "m \<notin> A"
    proof
      assume "m \<in> A"
      from implementsD2[of R A m k t, OF assms this kt] None show False by simp
    qed
    with m have "m = []" by simp
    with None kt show ?thesis by (simp add: re_opt_def)
  qed
qed

lemma implements_alt:
  assumes "implements R1 A" and "implements R2 B"
  shows "implements (re_alt R1 R2) (A \<union> B)"
proof (rule implementsI)
  fix k :: "'a cont" and s r
  assume a: "re_alt R1 R2 k s = Some r"
  show "\<exists>m t. s = m @ t \<and> m \<in> A \<union> B \<and> k t = Some r"
  proof (cases "R1 k s")
    case None
    with a have "R2 k s = Some r" by (simp add: re_alt_def)
    from implementsD1[OF assms(2) this] obtain m t where "s = m @ t" "m \<in> B" "k t = Some r"
      by blast
    then have "s = m @ t \<and> m \<in> A \<union> B \<and> k t = Some r" by simp
    then show ?thesis by blast
  next
    case (Some x)
    with a have "R1 k s = Some r" by (simp add: re_alt_def)
    from implementsD1[OF assms(1) this] obtain m t where "s = m @ t" "m \<in> A" "k t = Some r"
      by blast
    then have "s = m @ t \<and> m \<in> A \<union> B \<and> k t = Some r" by simp
    then show ?thesis by blast
  qed
next
  fix k :: "'a cont" and m t
  assume m: "m \<in> A \<union> B" and kt: "k t \<noteq> None"
  show "re_alt R1 R2 k (m @ t) \<noteq> None"
  proof (cases "R1 k (m @ t)")
    case (Some x)
    then show ?thesis by (simp add: re_alt_def)
  next
    case None
    have "m \<notin> A"
    proof
      assume "m \<in> A"
      from implementsD2[of R1 A m k t, OF assms(1) this kt] None show False by simp
    qed
    with m have "m \<in> B" by simp
    from implementsD2[of R2 B m k t, OF assms(2) this kt] None show ?thesis
      by (simp add: re_alt_def)
  qed
qed

lemma implements_seq:
  assumes "implements R1 A" and "implements R2 B"
  shows "implements (R1 \<circ> R2) (lang_seq A B)"
proof (rule implementsI)
  fix k :: "'a cont" and s r
  assume "(R1 \<circ> R2) k s = Some r"
  then have "R1 (R2 k) s = Some r" by simp
  from implementsD1[OF assms(1) this] obtain a t1 where
    a: "s = a @ t1" "a \<in> A" "R2 k t1 = Some r" by blast
  from implementsD1[OF assms(2) a(3)] obtain b t2 where
    b: "t1 = b @ t2" "b \<in> B" "k t2 = Some r" by blast
  from a(2) b(2) have "a @ b \<in> lang_seq A B"
    unfolding lang_seq_def by blast
  with a(1) b(1,3) have "s = (a @ b) @ t2 \<and> a @ b \<in> lang_seq A B \<and> k t2 = Some r"
    by simp
  then show "\<exists>m t. s = m @ t \<and> m \<in> lang_seq A B \<and> k t = Some r" by blast
next
  fix k :: "'a cont" and m t
  assume m: "m \<in> lang_seq A B" and kt: "k t \<noteq> None"
  from m obtain a b where ab: "m = a @ b" "a \<in> A" "b \<in> B"
    unfolding lang_seq_def by blast
  from implementsD2[of R2 B b k t, OF assms(2) ab(3) kt] have "R2 k (b @ t) \<noteq> None" .
  from implementsD2[of R1 A a "R2 k" "b @ t", OF assms(1) ab(2) this]
  show "(R1 \<circ> R2) k (m @ t) \<noteq> None"
    by (simp add: ab(1))
qed

lemma re_plus_sound:
  "re_plus cls k s = Some r \<Longrightarrow> \<exists>m t. s = m @ t \<and> m \<in> lang_plus cls \<and> k t = Some r"
proof (induction s)
  case Nil
  then show ?case by simp
next
  case (Cons c cs)
  from Cons.prems have c: "cls c"
    by (auto split: if_splits)
  show ?case
  proof (cases "re_plus cls k cs")
    case None
    with Cons.prems c have "k cs = Some r" by simp
    with c have "c # cs = [c] @ cs \<and> [c] \<in> lang_plus cls \<and> k cs = Some r"
      by (simp add: lang_plus_def)
    then show ?thesis by blast
  next
    case (Some x)
    with Cons.prems c have "re_plus cls k cs = Some r" by simp
    from Cons.IH[OF this] obtain m t where "cs = m @ t" "m \<in> lang_plus cls" "k t = Some r"
      by blast
    with c have "c # cs = (c # m) @ t \<and> c # m \<in> lang_plus cls \<and> k t = Some r"
      by (simp add: lang_plus_def)
    then show ?thesis by blast
  qed
qed

lemma re_plus_complete:
  "m \<noteq> [] \<Longrightarrow> list_all cls m \<Longrightarrow> k t \<noteq> None \<Longrightarrow> re_plus cls k (m @ t) \<noteq> None"
proof (induction m)
  case Nil
  then show ?case by simp
next
  case (Cons c m)
  show ?case
  proof (cases "m = []")
    case True
    with Cons.prems show ?thesis
      by (cases "re_plus cls k t") simp_all
  next
    case False
    with Cons have "re_plus cls k (m @ t) \<noteq> None" by simp
    then obtain x where "re_plus cls k (m @ t) = Some x" by blast
    with Cons.prems show ?thesis
      by simp
  qed
qed

lemma implements_plus: "implements (re_plus cls) (lang_plus cls)"
proof (rule implementsI)
  fix k :: "'a cont" and s r
  assume "re_plus cls k s = Some r"
  then show "\<exists>m t. s = m @ t \<and> m \<in> lang_plus cls \<and> k t = Some r"
    by (rule re_plus_sound)
next
  fix k :: "'a cont" and m t
  assume "m \<in> lang_plus cls" and kt: "k t \<noteq> None"
  then have "m \<noteq> []" "list_all cls m" by (simp_all add: lang_plus_def)
  then show "re_plus cls k (m @ t) \<noteq> None" using kt by (rule re_plus_complete)
qed

lemma match_here_split:
  assumes "implements R A" and "match_here R s = Some r"
  shows "\<exists>m. s = m @ r \<and> m \<in> A"
proof -
  from assms(2) have "R Some s = Some r" by (simp add: match_here_def)
  from implementsD1[OF assms(1) this] show ?thesis by auto
qed

lemma matched_prefix:
  assumes "s = m @ r"
  shows "take (length s - length r) s = m"
  using assms by simp

lemma match_all_in_lang:
  assumes "implements R A"
  shows "x \<in> set (match_all R s skip) \<Longrightarrow> x \<in> A"
proof (induction s arbitrary: skip)
  case Nil
  show ?case
  proof (cases "match_here R []")
    case None
    with Nil show ?thesis by (cases "skip = 0") simp_all
  next
    case (Some r)
    with Nil have x: "x = []" by (cases "skip = 0") simp_all
    from match_here_split[OF assms Some] obtain m where "[] = m @ r" "m \<in> A" by blast
    with x show ?thesis by simp
  qed
next
  case (Cons c cs)
  show ?case
  proof (cases "0 < skip")
    case True
    with Cons.prems have "x \<in> set (match_all R cs (skip - 1))" by simp
    then show ?thesis by (rule Cons.IH)
  next
    case False
    show ?thesis
    proof (cases "match_here R (c # cs)")
      case None
      with False Cons.prems have "x \<in> set (match_all R cs 0)" by simp
      then show ?thesis by (rule Cons.IH)
    next
      case (Some r)
      from match_here_split[OF assms Some] obtain m where m: "c # cs = m @ r" "m \<in> A"
        by blast
      from matched_prefix[OF m(1)] have tk: "take (length (c # cs) - length r) (c # cs) = m" .
      from False Some Cons.prems
      have "x = take (length (c # cs) - length r) (c # cs) \<or>
            x \<in> set (match_all R cs (length (c # cs) - length r - 1))"
        by (simp add: Let_def)
      then show ?thesis
      proof
        assume "x = take (length (c # cs) - length r) (c # cs)"
        with tk m(2) show ?thesis by simp
      next
        assume "x \<in> set (match_all R cs (length (c # cs) - length r - 1))"
        then show ?thesis by (rule Cons.IH)
      qed
    qed
  qed
qed

lemma search_first_in_lang:
  assumes "implements R A"
  shows "search_first R s = Some x \<Longrightarrow> x \<in> A"
proof (induction s)
  case Nil
  show ?case
  proof (cases "match_here R []")
    case None
    with Nil show ?thesis by simp
  next
    case (Some r)
    with Nil have x: "x = []" by simp
    from match_here_split[OF assms Some] obtain m where "[] = m @ r" "m \<in> A" by blast
    with x show ?thesis by simp
  qed
next
  case (Cons c cs)
  show ?case
  proof (cases "match_here R (c # cs)")
    case None
    with Cons.prems have "search_first R cs = Some x" by simp
    then show ?thesis by (rule Cons.IH)
  next
    case (Some r)
    from match_here_split[OF assms Some] obtain m where m: "c # cs = m @ r" "m \<in> A"
      by blast
    from matched_prefix[OF m(1)] have tk: "take (length (c # cs) - length r) (c # cs) = m" .
    from Some Cons.prems have "x = take (length (c # cs) - length r) (c # cs)" by simp
    with tk m(2) show ?thesis by simp
  qed
qed

lemma search_first_matches_itself:
  assumes "implements R A" and "x \<in> A"
  shows "search_first R x \<noteq> None"
proof -
  have "(Some :: string cont) [] \<noteq> None" by simp
  from implementsD2[of R A x Some "[]", OF assms this]
  have "match_here R x \<noteq> None" by (simp add: match_here_def)
  then obtain r where "match_here R x = Some r" by blast
  then show ?thesis by (cases x) simp_all
qed

lemma trailingPunct_here:
  "match_here trailingPunct s = (if s \<noteq> [] \<and> list_all isPunct s then Some [] else None)"
proof -
  have "re_plus isPunct (re_eol Some) s = (if s \<noteq> [] \<and> list_all isPunct s then Some [] else None)"
  proof (induction s)
    case Nil
    show ?case by simp
  next
    case (Cons c cs)
    show ?case
    proof (cases "isPunct c")
      case False
      then show ?thesis by simp
    next
      case True
      show ?thesis
      proof (cases "cs = []")
        case nil: True
        with True show ?thesis by (simp add: re_eol_def)
      next
        case False
        with True Cons.IH show ?thesis by (simp add: re_eol_def)
      qed
    qed
  qed
  then show ?thesis by (simp add: match_here_def trailingPunct_def)
qed

lemma clean_after_other:
  "a \<noteq> [] \<Longrightarrow> \<not> isPunct (last a) \<Longrightarrow>
     replace_first trailingPunct (a @ b) = a @ replace_first trailingPunct b"
proof (induction a)
  case Nil
  then show ?case by simp
next
  case (Cons c a)
  have "last (c # a) \<in> set (c # a @ b)"
    by (metis Cons.prems(1) append_Cons last_in_set set_append UnI1)
  with Cons.prems(2) have no: "\<not> list_all isPunct (c # a @ b)"
    unfolding list_all_iff by blast
  show ?case
  proof (cases "a = []")
    case True
    with no show ?thesis by (simp add: trailingPunct_here)
  next
    case False
    with Cons have "replace_first trailingPunct (a @ b) = a @ replace_first trailingPunct b"
      by simp
    with no show ?thesis by (simp add: trailingPunct_here)
  qed
qed

lemma clean_is_prefix: "\<exists>z. s = replace_first trailingPunct s @ z"
proof (induction s)
  case Nil
  show ?case by simp
next
  case (Cons c cs)
  show ?case
  proof (cases "match_here trailingPunct (c # cs)")
    case None
    from Cons obtain z where "cs = replace_first trailingPunct cs @ z" by blast
    then have "c # cs = (c # replace_first trailingPunct cs) @ z" by simp
    moreover from None have "replace_first trailingPunct (c # cs) = c # replace_first trailingPunct cs"
      by simp
    ultimately have "c # cs = replace_first trailingPunct (c # cs) @ z" by simp
    then show ?thesis by blast
  next
    case (Some r)
    then have "r = []" by (simp add: trailingPunct_here split: if_splits)
    with Some show ?thesis by simp
  qed
qed


lemma clean_unchanged:
  assumes "s \<noteq> []" and "\<not> isPunct (last s)"
  shows "replace_first trailingPunct s = s"
  using clean_after_other[OF assms, of "[]"] by simp


lemma set_set_add: "set (set_add links x) = insert x (set links)"
  by (auto simp: set_add_def)

lemma set_fold_addTwitterLink:
  "set (fold addTwitterLink ls acc) =
     set acc \<union>
     {m. \<exists>l \<in> set ls. str_includes (replace_first trailingPunct l) ''/status/'' \<and>
          search_first statusPattern (replace_first trailingPunct l) = Some m} \<union>
     {replace_first trailingPunct l | l. l \<in> set ls \<and>
          \<not> str_includes (replace_first trailingPunct l) ''/status/''}"
proof (induction ls arbitrary: acc)
  case Nil
  show ?case by simp
next
  case (Cons l ls)
  have step: "set (addTwitterLink l acc) =
      set acc \<union>
      {m. str_includes (replace_first trailingPunct l) ''/status/'' \<and>
          search_first statusPattern (replace_first trailingPunct l) = Some m} \<union>
      {c. c = replace_first trailingPunct l \<and>
          \<not> str_includes (replace_first trailingPunct l) ''/status/''}"
    by (auto simp: addTwitterLink_def Let_def set_set_add split: option.splits)
  show ?case
    unfolding fold_simps Cons.IH step by auto
qed

lemma set_fold_addShortLink:
  "set (fold addShortLink ls acc) = set acc \<union> replace_first trailingPunct ` set ls"
  by (induction ls arbitrary: acc) (auto simp: addShortLink_def set_set_add)

lemma implements_allUrl: "implements allUrlPattern allUrlLang"
  unfolding allUrlPattern_def allUrlLang_def
  by (intro implements_seq implements_opt implements_alt implements_lit_ci implements_plus)

lemma implements_status: "implements statusPattern statusLang"
  unfolding statusPattern_def statusLang_def
  by (intro implements_seq implements_opt implements_alt implements_lit implements_plus)

lemma implements_short: "implements shortPattern shortLang"
  unfolding shortPattern_def shortLang_def
  by (intro implements_seq implements_opt implements_alt implements_lit_ci implements_plus)

lemma lang_seqE:
  assumes "x \<in> lang_seq A B"
  obtains a b where "x = a @ b" "a \<in> A" "b \<in> B"
  using assms unfolding lang_seq_def by blast


lemma isPunct_cases:
  assumes "isPunct c"
  obtains "c = CHR ''.''" | "c = CHR '',''" | "c = CHR '';''" | "c = CHR ''!''" | "c = CHR ''?''"
  using assms unfolding isPunct_def by auto


lemma word_not_punct: "isWord c \<Longrightarrow> \<not> isPunct c"
proof
  assume w: "isWord c" and "isPunct c"
  from this(2) show False
    using w by (cases rule: isPunct_cases) (simp_all add: isWord_def)
qed




lemma allUrlLangE:
  assumes "x \<in> allUrlLang"
  obtains h o1 c3 w hst sl rest where
    "x = h @ o1 @ c3 @ w @ hst @ sl @ rest"
    "h \<in> lang_ci ''http''" "o1 = [] \<or> o1 \<in> lang_ci ''s''" "c3 \<in> lang_ci ''://''"
    "w = [] \<or> w \<in> lang_ci ''www.''" "hst \<in> lang_ci ''twitter.com'' \<or> hst \<in> lang_ci ''x.com''"
    "sl \<in> lang_ci ''/''" "rest \<in> lang_plus (\<lambda>c. \<not> isSpace c)"
proof -
  from assms[unfolded allUrlLang_def]
  obtain a6 rest where 1: "x = a6 @ rest"
    and a6: "a6 \<in> lang_seq (lang_seq (lang_seq (lang_seq (lang_seq
       (lang_ci ''http'') (insert [] (lang_ci ''s''))) (lang_ci ''://''))
       (insert [] (lang_ci ''www.''))) (lang_ci ''twitter.com'' \<union> lang_ci ''x.com''))
       (lang_ci ''/'')"
    and r: "rest \<in> lang_plus (\<lambda>c. \<not> isSpace c)"
    by (rule lang_seqE)
  from a6 obtain a5 sl where 2: "a6 = a5 @ sl" "sl \<in> lang_ci ''/''"
    and a5: "a5 \<in> lang_seq (lang_seq (lang_seq (lang_seq
       (lang_ci ''http'') (insert [] (lang_ci ''s''))) (lang_ci ''://''))
       (insert [] (lang_ci ''www.''))) (lang_ci ''twitter.com'' \<union> lang_ci ''x.com'')"
    by (rule lang_seqE)
  from a5 obtain a4 hst where 3: "a5 = a4 @ hst" "hst \<in> lang_ci ''twitter.com'' \<union> lang_ci ''x.com''"
    and a4: "a4 \<in> lang_seq (lang_seq (lang_seq
       (lang_ci ''http'') (insert [] (lang_ci ''s''))) (lang_ci ''://''))
       (insert [] (lang_ci ''www.''))"
    by (rule lang_seqE)
  from a4 obtain a3 w where 4: "a4 = a3 @ w" "w \<in> insert [] (lang_ci ''www.'')"
    and a3: "a3 \<in> lang_seq (lang_seq (lang_ci ''http'') (insert [] (lang_ci ''s''))) (lang_ci ''://'')"
    by (rule lang_seqE)
  from a3 obtain a2 c3 where 5: "a3 = a2 @ c3" "c3 \<in> lang_ci ''://''"
    and a2: "a2 \<in> lang_seq (lang_ci ''http'') (insert [] (lang_ci ''s''))"
    by (rule lang_seqE)
  from a2 obtain h o1 where 6: "a2 = h @ o1" "h \<in> lang_ci ''http''" "o1 \<in> insert [] (lang_ci ''s'')"
    by (rule lang_seqE)
  have x: "x = h @ o1 @ c3 @ w @ hst @ sl @ rest"
    by (simp add: 1 2 3 4 5 6)
  have o: "o1 = [] \<or> o1 \<in> lang_ci ''s''" and w: "w = [] \<or> w \<in> lang_ci ''www.''"
    and hst: "hst \<in> lang_ci ''twitter.com'' \<or> hst \<in> lang_ci ''x.com''"
    using 6(3) 4(2) 3(2) by simp_all
  show ?thesis
    by (rule that[OF x 6(2) o 5(2) w hst 2(2) r])
qed

lemma shortLangE:
  assumes "x \<in> shortLang"
  obtains h o1 l w where
    "x = h @ o1 @ l @ w"
    "h \<in> lang_ci ''http''" "o1 = [] \<or> o1 \<in> lang_ci ''s''" "l \<in> lang_ci ''://t.co/''"
    "w \<in> lang_plus isWord"
proof -
  from assms[unfolded shortLang_def]
  obtain a3 w where 1: "x = a3 @ w"
    and a3: "a3 \<in> lang_seq (lang_seq (lang_ci ''http'') (insert [] (lang_ci ''s''))) (lang_ci ''://t.co/'')"
    and r: "w \<in> lang_plus isWord"
    by (rule lang_seqE)
  from a3 obtain a2 l where 2: "a3 = a2 @ l" "l \<in> lang_ci ''://t.co/''"
    and a2: "a2 \<in> lang_seq (lang_ci ''http'') (insert [] (lang_ci ''s''))"
    by (rule lang_seqE)
  from a2 obtain h o1 where 3: "a2 = h @ o1" "h \<in> lang_ci ''http''" "o1 \<in> insert [] (lang_ci ''s'')"
    by (rule lang_seqE)
  have x: "x = h @ o1 @ l @ w"
    by (simp add: 1 2 3)
  have o: "o1 = [] \<or> o1 \<in> lang_ci ''s''"
    using 3(3) by simp
  show ?thesis
    by (rule that[OF x 3(2) o 2(2) r])
qed




lemma canon_values:
  "map canonicalize ''http'' = ''HTTP''"
  "map canonicalize ''s'' = ''S''"
  "map canonicalize ''://'' = ''://''"
  "map canonicalize ''www.'' = ''WWW.''"
  "map canonicalize ''twitter.com'' = ''TWITTER.COM''"
  "map canonicalize ''x.com'' = ''X.COM''"
  "map canonicalize ''/'' = ''/''"
  "map canonicalize ''://t.co/'' = ''://T.CO/''"
  by code_simp+

lemma allUrl_head:
  assumes "x \<in> allUrlLang"
  shows "take 10 (map canonicalize x) \<in>
           {''HTTP://TWI'', ''HTTP://X.C'', ''HTTP://WWW'', ''HTTPS://TW'', ''HTTPS://X.'', ''HTTPS://WW''}"
proof -
  from assms obtain h o1 c3 w hst sl rest where x: "x = h @ o1 @ c3 @ w @ hst @ sl @ rest"
    and p: "h \<in> lang_ci ''http''" "o1 = [] \<or> o1 \<in> lang_ci ''s''" "c3 \<in> lang_ci ''://''"
    "w = [] \<or> w \<in> lang_ci ''www.''" "hst \<in> lang_ci ''twitter.com'' \<or> hst \<in> lang_ci ''x.com''"
    "sl \<in> lang_ci ''/''" "rest \<in> lang_plus (\<lambda>c. \<not> isSpace c)"
    by (rule allUrlLangE)
  have h: "map canonicalize h = ''HTTP''" and c3: "map canonicalize c3 = ''://''"
    and sl: "map canonicalize sl = ''/''"
    using p(1,3,6) unfolding lang_ci_def mem_Collect_eq canon_values by this+
  have o: "map canonicalize o1 = [] \<or> map canonicalize o1 = ''S''"
    using p(2) unfolding lang_ci_def mem_Collect_eq canon_values by auto
  have w: "map canonicalize w = [] \<or> map canonicalize w = ''WWW.''"
    using p(4) unfolding lang_ci_def mem_Collect_eq canon_values by auto
  have hst: "map canonicalize hst = ''TWITTER.COM'' \<or> map canonicalize hst = ''X.COM''"
    using p(5) unfolding lang_ci_def mem_Collect_eq canon_values by auto
  have m: "map canonicalize x =
             ''HTTP'' @ map canonicalize o1 @ ''://'' @ map canonicalize w @ map canonicalize hst @
             ''/'' @ map canonicalize rest"
    by (simp add: x h c3 sl)
  from o w hst show ?thesis
    unfolding m by (elim disjE) simp_all
qed

lemma short_head:
  assumes "x \<in> shortLang"
  shows "take 10 (map canonicalize x) \<in> {''HTTP://T.C'', ''HTTPS://T.''}"
    and "10 \<le> length x" and "x \<noteq> []" and "isWord (last x)"
proof -
  from assms obtain h o1 l w where x: "x = h @ o1 @ l @ w"
    and p: "h \<in> lang_ci ''http''" "o1 = [] \<or> o1 \<in> lang_ci ''s''" "l \<in> lang_ci ''://t.co/''"
    "w \<in> lang_plus isWord"
    by (rule shortLangE)
  have h: "map canonicalize h = ''HTTP''" and l: "map canonicalize l = ''://T.CO/''"
    using p(1,3) unfolding lang_ci_def mem_Collect_eq canon_values by this+
  have o: "map canonicalize o1 = [] \<or> map canonicalize o1 = ''S''"
    using p(2) unfolding lang_ci_def mem_Collect_eq canon_values by auto
  have m: "map canonicalize x = ''HTTP'' @ map canonicalize o1 @ ''://T.CO/'' @ map canonicalize w"
    by (simp add: x h l)
  from o show "take 10 (map canonicalize x) \<in> {''HTTP://T.C'', ''HTTPS://T.''}"
    unfolding m by (elim disjE) simp_all
  have "length (map canonicalize x) \<ge> 12"
    unfolding m by simp
  then show "10 \<le> length x" by simp
  from p(4) have w: "w \<noteq> []" "list_all isWord w"
    by (simp_all add: lang_plus_def)
  from w(1) show "x \<noteq> []" by (simp add: x)
  from w have "last x = last w" "last w \<in> set w"
    by (simp_all add: x)
  with w(2) show "isWord (last x)"
    by (simp add: list_all_iff)
qed

lemma case_option_id: "(case x of None \<Rightarrow> None | Some y \<Rightarrow> Some y) = x"
  by (cases x) simp_all


















section \<open>Link Extractor: the claims\<close>



text \<open>
  Claim C9. Let the scan for URLs of \<^verbatim>\<open>twitter.com\<close> or \<^verbatim>\<open>x.com\<close> find \<open>lnk\<close> in
  the text. If \<open>lnk\<close>, cleaned of trailing punctuation, contains \<^verbatim>\<open>/status/\<close> and
  the status pattern finds no match in it (a user name with a hyphen, an id that is not
  numeric), then the cleaned URL is not among the links the extractor returns: it is
  not added by its own match, nor by any other match, nor by the scan for shortener
  links.
\<close>

theorem C9_unshaped_status_url_omitted:
  assumes found: "lnk \<in> set (match_all allUrlPattern text 0)"
    and status: "str_includes (replace_first trailingPunct lnk) ''/status/''"
    and shape: "search_first statusPattern (replace_first trailingPunct lnk) = None"
  shows "replace_first trailingPunct lnk \<notin> set (extractTwitterLinks text)"
proof
  let ?c = "replace_first trailingPunct lnk"
  assume "?c \<in> set (extractTwitterLinks text)"
  then consider
      (normalized) l where "l \<in> set (match_all allUrlPattern text 0)"
        "search_first statusPattern (replace_first trailingPunct l) = Some ?c"
    | (kept) l where "l \<in> set (match_all allUrlPattern text 0)" "?c = replace_first trailingPunct l"
        "\<not> str_includes (replace_first trailingPunct l) ''/status/''"
    | (short) s where "s \<in> set (match_all shortPattern text 0)" "?c = replace_first trailingPunct s"
    unfolding extractTwitterLinks_def Let_def set_fold_addShortLink set_fold_addTwitterLink
    by auto
  then show False
  proof cases
    case normalized
    from search_first_in_lang[OF implements_status normalized(2)] have "?c \<in> statusLang" .
    from search_first_matches_itself[OF implements_status this] shape show False
      by simp
  next
    case kept
    with status show False by simp
  next
    case short
    from match_all_in_lang[OF implements_short short(1)] have s: "s \<in> shortLang" .
    from short_head(3,4)[OF s] have "replace_first trailingPunct s = s"
      by (intro clean_unchanged) (auto dest: word_not_punct)
    with short(2) have cs: "?c = s" by simp
    from clean_is_prefix[of lnk] obtain z where z: "lnk = ?c @ z" by blast
    have "take 10 (map canonicalize lnk) = take 10 (map canonicalize s @ map canonicalize z)"
      by (subst z) (simp add: cs)
    also have "\<dots> = take 10 (map canonicalize s)"
      using short_head(2)[OF s] by simp
    finally have same: "take 10 (map canonicalize lnk) = take 10 (map canonicalize s)" .
    from match_all_in_lang[OF implements_allUrl found] have "lnk \<in> allUrlLang" .
    from allUrl_head[OF this] short_head(1)[OF s] show False
      unfolding same by auto
  qed
qed

theorem C9_unshaped_status_url_omitted_witness:
  "match_all allUrlPattern ''see https://x.com/foo-bar/status/555, https://x.com/foo/status/abc'' 0 =
     [''https://x.com/foo-bar/status/555,'', ''https://x.com/foo/status/abc''] \<and>
   replace_first trailingPunct ''https://x.com/foo-bar/status/555,'' = ''https://x.com/foo-bar/status/555'' \<and>
   ''https://x.com/foo-bar/status/555'' \<notin>
     set (extractTwitterLinks ''see https://x.com/foo-bar/status/555, https://x.com/foo/status/abc'') \<and>
   ''https://x.com/foo/status/abc'' \<notin>
     set (extractTwitterLinks ''see https://x.com/foo-bar/status/555, https://x.com/foo/status/abc'')"
proof -
  let ?text = "''see https://x.com/foo-bar/status/555, https://x.com/foo/status/abc''"
  have all: "match_all allUrlPattern ?text 0 =
     [''https://x.com/foo-bar/status/555,'', ''https://x.com/foo/status/abc'']"
    by code_simp
  have c1: "replace_first trailingPunct ''https://x.com/foo-bar/status/555,'' =
              ''https://x.com/foo-bar/status/555''"
    and c2: "replace_first trailingPunct ''https://x.com/foo/status/abc'' = ''https://x.com/foo/status/abc''"
    by code_simp+
  have s1: "str_includes ''https://x.com/foo-bar/status/555'' ''/status/''"
    and s2: "str_includes ''https://x.com/foo/status/abc'' ''/status/''"
    by code_simp+
  have n1: "search_first statusPattern ''https://x.com/foo-bar/status/555'' = None"
    and n2: "search_first statusPattern ''https://x.com/foo/status/abc'' = None"
    by code_simp+
  have m1: "''https://x.com/foo-bar/status/555,'' \<in> set (match_all allUrlPattern ?text 0)"
    and m2: "''https://x.com/foo/status/abc'' \<in> set (match_all allUrlPattern ?text 0)"
    unfolding all by simp_all
  from C9_unshaped_status_url_omitted[OF m1] C9_unshaped_status_url_omitted[OF m2]
  have "''https://x.com/foo-bar/status/555'' \<notin> set (extractTwitterLinks ?text)"
    and "''https://x.com/foo/status/abc'' \<notin> set (extractTwitterLinks ?text)"
    unfolding c1 c2 using s1 s2 n1 n2 by blast+
  with all c1 show ?thesis by blast
qed

end
